theory Spec2Isabelle
  imports Main
begin

section \<open>vm-spinner: the bounded-parallelism orchestrator of \<open>main.go\<close>\<close>

text \<open>
  The development embeds \<open>src/main.go\<close>: the default-value helpers, parameter
  validation, log initialisation, the body of the worker's event loop and the goroutine
  structure of \<open>runApp\<close> (dispatch loop, workers, aggregator, shutdown), the last as an
  interleaving transition system with one action per synchronisation-relevant statement.
\<close>

subsection \<open>Go integers\<close>

text \<open>
  Go's \<open>int\<close> is taken as the 64-bit two's complement integer of the usual build targets.
  Values are HOL integers; \<open>wrap64\<close> is the wrap-around of an arithmetic result, and
  division truncates towards zero and panics on a zero divisor.
\<close>

definition wrap64 :: "int \<Rightarrow> int" where
  "wrap64 x = (x + 2 ^ 63) mod 2 ^ 64 - 2 ^ 63"

definition go_int :: "int \<Rightarrow> bool" where
  "go_int x = (- (2 ^ 63) \<le> x \<and> x < 2 ^ 63)"

definition go_mul :: "int \<Rightarrow> int \<Rightarrow> int" where
  "go_mul a b = wrap64 (a * b)"

datatype panic = IntegerDivideByZero | SendOnClosedChannel | NegativeWaitGroupCounter
  | ReleasedMoreThanHeld | CloseOfClosedChannel

definition go_div :: "int \<Rightarrow> int \<Rightarrow> panic + int" where
  "go_div a b =
     (if b = 0 then Inl IntegerDivideByZero
      else Inr (wrap64 (sgn a * sgn b * (\<bar>a\<bar> div \<bar>b\<bar>))))"

subsection \<open>Default values (lines 16-26)\<close>

text \<open>\<open>runtime.NumCPU()\<close> is the parameter \<open>ncpu\<close>.\<close>

definition defaultMemory :: "int" where
  "defaultMemory = 1024"

definition defaultParallelism :: "int \<Rightarrow> panic + int" where
  "defaultParallelism ncpu = go_div ncpu 2"

definition defaultNumCPUs :: "int \<Rightarrow> panic + int" where
  "defaultNumCPUs ncpu =
     (case defaultParallelism ncpu of
        Inl p \<Rightarrow> Inl p
      | Inr d \<Rightarrow> go_div ncpu d)"

subsection \<open>The command-line context\<close>

text \<open>
  A \<open>cli.Context\<close> is the table of the global flags that were declared, by type. The
  lookups \<open>GlobalInt\<close>, \<open>GlobalString\<close> and \<open>GlobalBool\<close> of urfave/cli return the zero
  value of the type for a name that no flag declares.
\<close>

record cli_ctx =
  gints :: "string \<rightharpoonup> int"
  gstrings :: "string \<rightharpoonup> string"
  gbools :: "string \<rightharpoonup> bool"

definition GlobalInt :: "cli_ctx \<Rightarrow> string \<Rightarrow> int" where
  "GlobalInt c name = (case gints c name of None \<Rightarrow> 0 | Some v \<Rightarrow> v)"

definition GlobalString :: "cli_ctx \<Rightarrow> string \<Rightarrow> string" where
  "GlobalString c name = (case gstrings c name of None \<Rightarrow> [] | Some v \<Rightarrow> v)"

definition GlobalBool :: "cli_ctx \<Rightarrow> string \<Rightarrow> bool" where
  "GlobalBool c name = (case gbools c name of None \<Rightarrow> False | Some v \<Rightarrow> v)"

text \<open>
  The global flags that \<open>main\<close> declares (lines 83-121); a name such as \<open>images,i\<close>
  declares the flag under both spellings.
\<close>

definition string_flags :: "string list" where
  "string_flags = [''images'', ''i'', ''provider'', ''p'', ''log.level'', ''log.output'']"

definition int_flags :: "string list" where
  "int_flags = [''memory'', ''cpus'', ''parallelism'']"

definition bool_flags :: "string list" where
  "bool_flags = [''log.json'']"

definition declared :: "cli_ctx \<Rightarrow> bool" where
  "declared c =
     (dom (gstrings c) = set string_flags \<and> dom (gints c) = set int_flags
      \<and> dom (gbools c) = set bool_flags)"

subsection \<open>Parameter validation (lines 129-142)\<close>

datatype error =
    CPUsExceedAvailable
  | ParallelismExceedsAvailable
  | PathError string string
  | JobError string

text \<open>
  The result is the error returned (\<open>None\<close> for \<open>nil\<close>) together with the flag that
  says whether the warning of line 139 was printed.
\<close>

record validation =
  warned :: bool
  verr :: "error option"

definition validateParameters :: "int \<Rightarrow> cli_ctx \<Rightarrow> validation" where
  "validateParameters ncpu c =
     (if GlobalInt c ''cpus'' > ncpu
        then \<lparr>warned = False, verr = Some CPUsExceedAvailable\<rparr>
      else if GlobalInt c ''parallelism'' > ncpu
        then \<lparr>warned = False, verr = Some ParallelismExceedsAvailable\<rparr>
      else if go_mul (GlobalInt c ''parallelism'') (GlobalInt c ''cpus'') > ncpu
        then \<lparr>warned = True, verr = None\<rparr>
      else \<lparr>warned = False, verr = None\<rparr>)"

subsection \<open>Log initialisation (lines 144-171)\<close>

datatype log_level = TraceLevel | DebugLevel | InfoLevel | ErrorLevel

datatype log_out = Stdout | File string

record log_setup =
  json_format :: bool
  log_output :: log_out
  level :: log_level

text \<open>
  \<open>os.OpenFile(name, O_RDWR|O_CREATE, 0644)\<close>: the file system is the parameter \<open>fs\<close>,
  which says for each path whether opening succeeds. The empty path names no file: the
  open system call fails on it with \<open>ENOENT\<close> whatever the file system holds, and Go
  returns the \<open>PathError\<close> of operation \<open>open\<close> and that path.
\<close>

definition OpenFile :: "(string \<Rightarrow> error option) \<Rightarrow> string \<Rightarrow> error + log_out" where
  "OpenFile fs name =
     (if name = [] then Inl (PathError ''open'' [])
      else (case fs name of Some e \<Rightarrow> Inl e | None \<Rightarrow> Inr (File name)))"

definition initLog :: "(string \<Rightarrow> error option) \<Rightarrow> cli_ctx \<Rightarrow> error + log_setup" where
  "initLog fs c =
     (let json = GlobalBool c ''log.json'';
          lvl = (if GlobalString c ''log.level'' = ''trace'' then TraceLevel
                 else if GlobalString c ''log.level'' = ''debug'' then DebugLevel
                 else if GlobalString c ''log.level'' = ''info'' then InfoLevel
                 else DebugLevel)
      in if length (GlobalString c ''log.output'') > 0
         then (case OpenFile fs (GlobalString c ''log-output'') of
                 Inl e \<Rightarrow> Inl e
               | Inr out \<Rightarrow> Inr \<lparr>json_format = json, log_output = out, level = lvl\<rparr>)
         else Inr \<lparr>json_format = json, log_output = Stdout, level = lvl\<rparr>)"

subsection \<open>VM configuration and instance names (lines 216-224)\<close>

record VMConfig =
  Name :: string
  BoxName :: string
  ProviderName :: string
  CPUs :: int
  Memory :: int
  Command :: string

record job =
  Images :: "string list"
  Cmd :: string

text \<open>\<open>%d\<close> of a loop index: the decimal digits, most significant first.\<close>

definition digit :: "nat \<Rightarrow> char" where
  "digit d = ''0123456789'' ! d"

fun itoa :: "nat \<Rightarrow> string" where
  "itoa n = (if n < 10 then [digit n] else itoa (n div 10) @ [digit (n mod 10)])"

declare itoa.simps [simp del]

definition vm_name :: "string \<Rightarrow> nat \<Rightarrow> string" where
  "vm_name img i = ''/tmp/'' @ img @ ''-'' @ itoa i"

definition mk_conf :: "cli_ctx \<Rightarrow> job \<Rightarrow> string \<Rightarrow> nat \<Rightarrow> VMConfig" where
  "mk_conf c j img i =
     \<lparr>Name = vm_name img i,
      BoxName = img,
      ProviderName = GlobalString c ''provider'',
      CPUs = GlobalInt c ''cpus'',
      Memory = GlobalInt c ''memory'',
      Command = Cmd j\<rparr>"

subsection \<open>One iteration of the worker's event loop (lines 235-251)\<close>

text \<open>
  The VM runtime delivers one event per \<open>select\<close>: which of the five channels fired and
  the value received. An error event carries the text of a non-nil error.
\<close>

datatype event = Done | CmdOutput string | Debug string | Info string | Error string

record log_entry =
  severity :: log_level
  vm_field :: string
  message :: string

record VMOutput =
  VM :: string
  Line :: string

record selected =
  logged :: log_entry
  forward :: "VMOutput option"
  returns :: bool

fun worker_select :: "VMConfig \<Rightarrow> event \<Rightarrow> selected" where
  "worker_select conf Done =
     \<lparr>logged = \<lparr>severity = InfoLevel, vm_field = BoxName conf, message = ''Job Finished.''\<rparr>,
      forward = None, returns = True\<rparr>"
| "worker_select conf (CmdOutput l) =
     \<lparr>logged = \<lparr>severity = InfoLevel, vm_field = BoxName conf, message = l\<rparr>,
      forward = Some \<lparr>VM = BoxName conf, Line = l\<rparr>, returns = False\<rparr>"
| "worker_select conf (Debug l) =
     \<lparr>logged = \<lparr>severity = TraceLevel, vm_field = BoxName conf, message = l\<rparr>,
      forward = None, returns = False\<rparr>"
| "worker_select conf (Info l) =
     \<lparr>logged = \<lparr>severity = DebugLevel, vm_field = BoxName conf, message = l\<rparr>,
      forward = None, returns = False\<rparr>"
| "worker_select conf (Error e) =
     \<lparr>logged = \<lparr>severity = ErrorLevel, vm_field = BoxName conf, message = e\<rparr>,
      forward = None, returns = False\<rparr>"

subsection \<open>The goroutines of \<open>runApp\<close> (lines 189-266)\<close>

text \<open>
  The main goroutine's program counter names the statement it is about to run; the loop
  variables \<open>i\<close> and \<open>image\<close> of line 211 travel with it.
\<close>

datatype main_pc =
    ForRange nat
  | SmAcquire nat string
  | GoWorker nat string
  | WgWait
  | CloseResCh
  | ResWgWait
  | JobDone
  | Returned

text \<open>
  A worker goroutine (lines 227-252) is in its \<open>select\<close>, blocked in the send of line 243,
  in its deferred function before \<open>sm.Release(1)\<close>, there before \<open>wg.Done()\<close>, or gone.
\<close>

datatype worker_pc = Selecting | Sending VMOutput | DeferRelease | DeferWgDone | Exited

text \<open>
  The aggregator goroutine (lines 193-198) waits in \<open>range resCh\<close>, is inside
  \<open>job.Process(res)\<close>, or has left the loop and called \<open>resWg.Done()\<close>.
\<close>

datatype agg_pc = Ranging | Processing VMOutput | AggExited

record worker =
  conf :: VMConfig
  wpc :: worker_pc

record state =
  images :: "string list"
  sm_size :: int
  sm_cur :: int
  wg :: int
  res_wg :: int
  res_closed :: bool
  mpc :: main_pc
  workers :: "worker list"
  agg :: agg_pc
  processed :: "VMOutput list"
  logs :: "log_entry list"
  done_calls :: nat
  panicked :: "panic option"

text \<open>
  The state when the dispatch loop is entered: the aggregator is started
  (\<open>resWg.Add(1)\<close>, line 192), the semaphore has the size of the parallelism option and
  nothing acquired, the channel \<open>resCh\<close> is open and unbuffered. \<open>logs\<close> collects the
  lines that workers log, \<open>processed\<close> the arguments of the calls of \<open>job.Process\<close>,
  \<open>done_calls\<close> the number of calls of \<open>job.Done\<close>.
\<close>

definition start :: "cli_ctx \<Rightarrow> job \<Rightarrow> state" where
  "start c j =
     \<lparr>images = Images j, sm_size = GlobalInt c ''parallelism'', sm_cur = 0, wg = 0,
      res_wg = 1, res_closed = False, mpc = ForRange 0, workers = [], agg = Ranging,
      processed = [], logs = [], done_calls = 0, panicked = None\<rparr>"

text \<open>
  One action per statement that synchronises or is observed. \<open>W_Recv i ev\<close> is the
  \<open>select\<close> of worker \<open>i\<close> receiving \<open>ev\<close> from its VM; \<open>W_Send i out\<close> is the completion
  of its send, which on the unbuffered channel is also the aggregator's receive.
  \<open>RunVirtualMachine\<close> is declared in another file of the package: the five channels
  it returns are the environment here, and any event may be the one that a \<open>select\<close>
  receives, in any order and any number of times.
\<close>

datatype action =
    M_Range | M_Acquire | M_Go | M_WgWait | M_Close | M_ResWait | M_JobDone
  | W_Recv nat event | W_Send nat VMOutput | W_Release nat | W_WgDone nat
  | A_Process | A_Exit

definition at_pc :: "state \<Rightarrow> nat \<Rightarrow> worker_pc \<Rightarrow> bool" where
  "at_pc s i p = (i < length (workers s) \<and> wpc (workers s ! i) = p)"

definition set_wpc :: "nat \<Rightarrow> worker_pc \<Rightarrow> state \<Rightarrow> state" where
  "set_wpc i p s = s\<lparr>workers := (workers s)[i := (workers s ! i)\<lparr>wpc := p\<rparr>]\<rparr>"

text \<open>
  Where the worker goes after one \<open>select\<close>: to its deferred function on \<open>return\<close>,
  into the send of line 243 when there is a line to forward, else around the loop.
\<close>

definition after_select :: "selected \<Rightarrow> worker_pc" where
  "after_select r =
     (if returns r then DeferRelease
      else (case forward r of Some out \<Rightarrow> Sending out | None \<Rightarrow> Selecting))"

text \<open>
  \<open>step\<close> is \<open>None\<close> where the statement blocks or is not the one the goroutine is at.
  \<open>sm.Acquire(ctx, 1)\<close> of \<open>golang.org/x/sync/semaphore\<close> with the background
  context returns only once \<open>size - cur \<ge> 1\<close> (the main goroutine is the only
  acquirer, so nobody waits before it; with a size below one it waits for ever);
  \<open>sm.Release\<close> panics when more is released than held, \<open>wg.Done\<close> on a negative
  counter, a send and \<open>close\<close> on a closed channel.
\<close>

fun step :: "cli_ctx \<Rightarrow> job \<Rightarrow> state \<Rightarrow> action \<Rightarrow> state option" where
  "step c j s M_Range =
     (case mpc s of
        ForRange i \<Rightarrow>
          if i < length (images s)
          then Some (s\<lparr>wg := wg s + 1, mpc := SmAcquire i (images s ! i)\<rparr>)
          else Some (s\<lparr>mpc := WgWait\<rparr>)
      | _ \<Rightarrow> None)"
| "step c j s M_Acquire =
     (case mpc s of
        SmAcquire i img \<Rightarrow>
          if sm_size s - sm_cur s \<ge> 1
          then Some (s\<lparr>sm_cur := sm_cur s + 1, mpc := GoWorker i img\<rparr>)
          else None
      | _ \<Rightarrow> None)"
| "step c j s M_Go =
     (case mpc s of
        GoWorker i img \<Rightarrow>
          Some (s\<lparr>workers := workers s @ [\<lparr>conf = mk_conf c j img i, wpc = Selecting\<rparr>],
                  mpc := ForRange (i + 1)\<rparr>)
      | _ \<Rightarrow> None)"
| "step c j s M_WgWait =
     (if mpc s = WgWait \<and> wg s = 0 then Some (s\<lparr>mpc := CloseResCh\<rparr>) else None)"
| "step c j s M_Close =
     (if mpc s = CloseResCh
      then (if res_closed s then Some (s\<lparr>panicked := Some CloseOfClosedChannel\<rparr>)
            else Some (s\<lparr>res_closed := True, mpc := ResWgWait\<rparr>))
      else None)"
| "step c j s M_ResWait =
     (if mpc s = ResWgWait \<and> res_wg s = 0 then Some (s\<lparr>mpc := JobDone\<rparr>) else None)"
| "step c j s M_JobDone =
     (if mpc s = JobDone
      then Some (s\<lparr>done_calls := done_calls s + 1, mpc := Returned\<rparr>)
      else None)"
| "step c j s (W_Recv i ev) =
     (if at_pc s i Selecting
      then (let r = worker_select (conf (workers s ! i)) ev
            in Some (set_wpc i (after_select r) (s\<lparr>logs := logs s @ [logged r]\<rparr>)))
      else None)"
| "step c j s (W_Send i out) =
     (if at_pc s i (Sending out)
      then (if res_closed s then Some (s\<lparr>panicked := Some SendOnClosedChannel\<rparr>)
            else if agg s = Ranging
            then Some (set_wpc i Selecting (s\<lparr>agg := Processing out\<rparr>))
            else None)
      else None)"
| "step c j s (W_Release i) =
     (if at_pc s i DeferRelease
      then (if sm_cur s - 1 < 0 then Some (s\<lparr>panicked := Some ReleasedMoreThanHeld\<rparr>)
            else Some (set_wpc i DeferWgDone (s\<lparr>sm_cur := sm_cur s - 1\<rparr>)))
      else None)"
| "step c j s (W_WgDone i) =
     (if at_pc s i DeferWgDone
      then (if wg s - 1 < 0 then Some (s\<lparr>panicked := Some NegativeWaitGroupCounter\<rparr>)
            else Some (set_wpc i Exited (s\<lparr>wg := wg s - 1\<rparr>)))
      else None)"
| "step c j s A_Process =
     (case agg s of
        Processing out \<Rightarrow> Some (s\<lparr>processed := processed s @ [out], agg := Ranging\<rparr>)
      | _ \<Rightarrow> None)"
| "step c j s A_Exit =
     (if agg s = Ranging \<and> res_closed s
      then Some (s\<lparr>res_wg := res_wg s - 1, agg := AggExited\<rparr>)
      else None)"

text \<open>A panic ends the process: nothing runs after it.\<close>

definition next_state :: "cli_ctx \<Rightarrow> job \<Rightarrow> state \<Rightarrow> action \<Rightarrow> state option" where
  "next_state c j s a = (if panicked s = None then step c j s a else None)"

fun exec :: "cli_ctx \<Rightarrow> job \<Rightarrow> state \<Rightarrow> action list \<Rightarrow> state option" where
  "exec c j s [] = Some s"
| "exec c j s (a # as) =
     (case next_state c j s a of None \<Rightarrow> None | Some s' \<Rightarrow> exec c j s' as)"

text \<open>\<open>reach c j as s\<close>: the schedule \<open>as\<close> leads from the start of dispatch to \<open>s\<close>.\<close>

definition reach :: "cli_ctx \<Rightarrow> job \<Rightarrow> action list \<Rightarrow> state \<Rightarrow> bool" where
  "reach c j as s = (exec c j (start c j) as = Some s)"

subsection \<open>\<open>runApp\<close> before dispatch (lines 173-187)\<close>

text \<open>
  \<open>vmjobs.NewVMJob\<close> is a parameter. An error of validation or of \<open>initLog\<close> is
  returned; an error of job construction ends the process in \<open>log.Fatal\<close>.
\<close>

datatype outcome = ReturnError error | Fatal error | Dispatch log_setup job state

definition runApp :: "int \<Rightarrow> (string \<Rightarrow> error option) \<Rightarrow> (cli_ctx \<Rightarrow> error + job)
    \<Rightarrow> cli_ctx \<Rightarrow> outcome" where
  "runApp ncpu fs NewVMJob c =
     (case verr (validateParameters ncpu c) of
        Some e \<Rightarrow> ReturnError e
      | None \<Rightarrow>
          (case initLog fs c of
             Inl e \<Rightarrow> ReturnError e
           | Inr lg \<Rightarrow>
               (case NewVMJob c of
                  Inl e \<Rightarrow> Fatal e
                | Inr j \<Rightarrow> Dispatch lg j (start c j))))"

subsection \<open>Observations on states and schedules\<close>

text \<open>
  A worker holds its admission token from its start until its \<open>sm.Release(1)\<close>, and
  counts in the wait group until its \<open>wg.Done()\<close>.
\<close>

fun holds_token :: "worker_pc \<Rightarrow> bool" where
  "holds_token Selecting = True"
| "holds_token (Sending out) = True"
| "holds_token DeferRelease = True"
| "holds_token DeferWgDone = False"
| "holds_token Exited = False"

fun pending :: "worker_pc \<Rightarrow> bool" where
  "pending Exited = False"
| "pending p = True"

definition count_pc :: "(worker_pc \<Rightarrow> bool) \<Rightarrow> state \<Rightarrow> nat" where
  "count_pc P s = length (filter (\<lambda>w. P (wpc w)) (workers s))"

text \<open>The number of workers that hold a token.\<close>

definition holders :: "state \<Rightarrow> nat" where
  "holders s = count_pc holds_token s"

text \<open>
  The stages of the main goroutine: dispatching, waiting for the workers, closing the
  channel, waiting for the aggregator, calling \<open>job.Done()\<close>, returned.
\<close>

fun phase :: "main_pc \<Rightarrow> nat" where
  "phase (ForRange i) = 0"
| "phase (SmAcquire i img) = 0"
| "phase (GoWorker i img) = 0"
| "phase WgWait = 1"
| "phase CloseResCh = 2"
| "phase ResWgWait = 3"
| "phase JobDone = 4"
| "phase Returned = 5"

text \<open>
  Inside an iteration the main goroutine has already counted the coming worker into the
  wait group, and between \<open>sm.Acquire\<close> and the \<open>go\<close> statement it holds the token
  that the coming worker will release.
\<close>

fun wg_added :: "main_pc \<Rightarrow> int" where
  "wg_added (SmAcquire i img) = 1"
| "wg_added (GoWorker i img) = 1"
| "wg_added p = 0"

fun token_in_hand :: "main_pc \<Rightarrow> int" where
  "token_in_hand (GoWorker i img) = 1"
| "token_in_hand p = 0"

fun loop_ok :: "main_pc \<Rightarrow> nat \<Rightarrow> string list \<Rightarrow> bool" where
  "loop_ok (ForRange i) k imgs = (i = k \<and> i \<le> length imgs)"
| "loop_ok (SmAcquire i img) k imgs = (i = k \<and> i < length imgs \<and> img = imgs ! i)"
| "loop_ok (GoWorker i img) k imgs = (i = k \<and> i < length imgs \<and> img = imgs ! i)"
| "loop_ok p k imgs = (k = length imgs)"

text \<open>The relation between the counters, the program points and the lists.\<close>

definition invariant :: "cli_ctx \<Rightarrow> job \<Rightarrow> state \<Rightarrow> bool" where
  "invariant c j s =
     (images s = Images j \<and> sm_size s = GlobalInt c ''parallelism'' \<and> panicked s = None
      \<and> loop_ok (mpc s) (length (workers s)) (images s)
      \<and> wg s = int (count_pc pending s) + wg_added (mpc s)
      \<and> sm_cur s = int (count_pc holds_token s) + token_in_hand (mpc s)
      \<and> sm_cur s \<le> max 0 (sm_size s)
      \<and> (2 \<le> phase (mpc s) \<longrightarrow> wg s = 0)
      \<and> (res_closed s \<longleftrightarrow> 3 \<le> phase (mpc s))
      \<and> res_wg s = (if agg s = AggExited then 0 else 1)
      \<and> (agg s = AggExited \<longrightarrow> res_closed s)
      \<and> (4 \<le> phase (mpc s) \<longrightarrow> agg s = AggExited)
      \<and> done_calls s = (if mpc s = Returned then 1 else 0)
      \<and> (\<forall>k < length (workers s). conf (workers s ! k) = mk_conf c j (images s ! k) k))"

text \<open>
  What a schedule did: the tokens acquired and not released, the workers that returned
  (in the order of their \<open>wg.Done()\<close>), the lines handed to the aggregator, and the
  steps of joining and shutting down.
\<close>

fun is_release :: "action \<Rightarrow> bool" where
  "is_release (W_Release i) = True"
| "is_release a = False"

definition tokens_out :: "action list \<Rightarrow> int" where
  "tokens_out as = int (count_list as M_Acquire) - int (length (filter is_release as))"

fun return_of :: "action \<Rightarrow> nat list" where
  "return_of (W_WgDone i) = [i]"
| "return_of a = []"

definition returned :: "action list \<Rightarrow> nat list" where
  "returned as = concat (map return_of as)"

fun sent_of :: "action \<Rightarrow> VMOutput list" where
  "sent_of (W_Send i out) = [out]"
| "sent_of a = []"

definition sent :: "action list \<Rightarrow> VMOutput list" where
  "sent as = concat (map sent_of as)"

fun milestone :: "action \<Rightarrow> bool" where
  "milestone (W_WgDone i) = True"
| "milestone M_WgWait = True"
| "milestone M_Close = True"
| "milestone A_Exit = True"
| "milestone M_ResWait = True"
| "milestone M_JobDone = True"
| "milestone a = False"

definition milestones :: "action list \<Rightarrow> action list" where
  "milestones as = filter milestone as"

definition pcs :: "state \<Rightarrow> worker_pc list" where
  "pcs s = map wpc (workers s)"

text \<open>How often worker \<open>i\<close> has released, read off its program point.\<close>

definition released_at :: "worker_pc list \<Rightarrow> nat \<Rightarrow> nat" where
  "released_at ps i = (if i < length ps \<and> \<not> holds_token (ps ! i) then 1 else 0)"

text \<open>The shutdown steps that lie behind the main goroutine and the aggregator.\<close>

fun shutdown_seq :: "main_pc \<Rightarrow> agg_pc \<Rightarrow> action list" where
  "shutdown_seq (ForRange i) g = []"
| "shutdown_seq (SmAcquire i img) g = []"
| "shutdown_seq (GoWorker i img) g = []"
| "shutdown_seq WgWait g = []"
| "shutdown_seq CloseResCh g = [M_WgWait]"
| "shutdown_seq ResWgWait Ranging = [M_WgWait, M_Close]"
| "shutdown_seq ResWgWait (Processing out) = [M_WgWait, M_Close]"
| "shutdown_seq ResWgWait AggExited = [M_WgWait, M_Close, A_Exit]"
| "shutdown_seq JobDone g = [M_WgWait, M_Close, A_Exit, M_ResWait]"
| "shutdown_seq Returned g = [M_WgWait, M_Close, A_Exit, M_ResWait, M_JobDone]"

definition exited :: "worker_pc list \<Rightarrow> nat set" where
  "exited ps = {i. i < length ps \<and> ps ! i = Exited}"

subsection \<open>A sequential schedule\<close>

text \<open>
  One worker at a time: each image is admitted, its session answers \<open>Done\<close> at once, the
  worker releases and leaves; then the shutdown.
\<close>

definition serve :: "nat \<Rightarrow> action list" where
  "serve i = [M_Range, M_Acquire, M_Go, W_Recv i Done, W_Release i, W_WgDone i]"

definition serial :: "nat \<Rightarrow> action list" where
  "serial n =
     concat (map serve [0..<n]) @ [M_Range, M_WgWait, M_Close, A_Exit, M_ResWait, M_JobDone]"

definition served :: "cli_ctx \<Rightarrow> job \<Rightarrow> nat \<Rightarrow> state" where
  "served c j k =
     (start c j)
       \<lparr>mpc := ForRange k,
        workers := map (\<lambda>i. \<lparr>conf = mk_conf c j (Images j ! i) i, wpc = Exited\<rparr>) [0..<k],
        logs := map (\<lambda>i. \<lparr>severity = InfoLevel, vm_field = Images j ! i,
                             message = ''Job Finished.''\<rparr>) [0..<k]\<rparr>"

subsection \<open>A measure of the work left\<close>

text \<open>
  The steps a worker, the aggregator and the main goroutine still have before them when
  every session answers \<open>Done\<close> next; a send counts for the receive and the call of
  \<open>job.Process\<close> that it brings about.
\<close>

fun wrank :: "worker_pc \<Rightarrow> nat" where
  "wrank Selecting = 3"
| "wrank (Sending out) = 5"
| "wrank DeferRelease = 2"
| "wrank DeferWgDone = 1"
| "wrank Exited = 0"

fun arank :: "agg_pc \<Rightarrow> nat" where
  "arank (Processing out) = 2"
| "arank Ranging = 1"
| "arank AggExited = 0"

fun mrank :: "main_pc \<Rightarrow> nat \<Rightarrow> nat" where
  "mrank (ForRange i) n = 6 * (n - i) + 5"
| "mrank (SmAcquire i img) n = 6 * (n - i) + 4"
| "mrank (GoWorker i img) n = 6 * (n - i) + 3"
| "mrank WgWait n = 4"
| "mrank CloseResCh n = 3"
| "mrank ResWgWait n = 2"
| "mrank JobDone n = 1"
| "mrank Returned n = 0"

definition rank :: "state \<Rightarrow> nat" where
  "rank s = mrank (mpc s) (length (images s)) + sum_list (map wrank (pcs s)) + arank (agg s)"

subsection \<open>Concrete inputs\<close>

definition example_ctx :: "int \<Rightarrow> int \<Rightarrow> string \<Rightarrow> cli_ctx" where
  "example_ctx par cpus logfile =
     \<lparr>gints = [''memory'' \<mapsto> 1024, ''cpus'' \<mapsto> cpus, ''parallelism'' \<mapsto> par],
      gstrings = [''images'' \<mapsto> ''alpine,alpine'', ''i'' \<mapsto> ''alpine,alpine'',
                  ''provider'' \<mapsto> ''virtualbox'', ''p'' \<mapsto> ''virtualbox'',
                  ''log.level'' \<mapsto> ''debug'', ''log.output'' \<mapsto> logfile],
      gbools = [''log.json'' \<mapsto> False]\<rparr>"

definition example_job :: job where
  "example_job = \<lparr>Images = [''alpine'', ''alpine''], Cmd = ''uname -r''\<rparr>"

definition example_run :: "action list" where
  "example_run =
     [M_Range, M_Acquire, M_Go, W_Recv 0 (Error ''e1''), W_Recv 0 (CmdOutput ''5.10''),
      W_Send 0 \<lparr>VM = ''alpine'', Line = ''5.10''\<rparr>, W_Recv 0 (Error ''e2''), W_Recv 0 Done,
      A_Process, W_Release 0, M_Range, M_Acquire, M_Go, W_WgDone 0, W_Recv 1 Done,
      W_Release 1, W_WgDone 1, M_Range, M_WgWait, M_Close, A_Exit, M_ResWait, M_JobDone]"

definition example_final :: state where
  "example_final =
     \<lparr>images = [''alpine'', ''alpine''], sm_size = 1, sm_cur = 0, wg = 0,
      res_wg = 0, res_closed = True, mpc = Returned,
      workers =
        [\<lparr>conf = \<lparr>Name = ''/tmp/alpine-0'', BoxName = ''alpine'',
                  ProviderName = ''virtualbox'', CPUs = 1, Memory = 1024,
                  Command = ''uname -r''\<rparr>,
          wpc = Exited\<rparr>,
         \<lparr>conf = \<lparr>Name = ''/tmp/alpine-1'', BoxName = ''alpine'',
                  ProviderName = ''virtualbox'', CPUs = 1, Memory = 1024,
                  Command = ''uname -r''\<rparr>,
          wpc = Exited\<rparr>],
      agg = AggExited, processed = [\<lparr>VM = ''alpine'', Line = ''5.10''\<rparr>],
      logs =
        [\<lparr>severity = ErrorLevel, vm_field = ''alpine'', message = ''e1''\<rparr>,
         \<lparr>severity = InfoLevel, vm_field = ''alpine'', message = ''5.10''\<rparr>,
         \<lparr>severity = ErrorLevel, vm_field = ''alpine'', message = ''e2''\<rparr>,
         \<lparr>severity = InfoLevel, vm_field = ''alpine'', message = ''Job Finished.''\<rparr>,
         \<lparr>severity = InfoLevel, vm_field = ''alpine'', message = ''Job Finished.''\<rparr>],
      done_calls = 1, panicked = None\<rparr>"

definition example_mid :: state where
  "example_mid =
     \<lparr>images = [''alpine'', ''alpine''], sm_size = 1, sm_cur = 1, wg = 1,
      res_wg = 1, res_closed = False, mpc = ForRange 1,
      workers =
        [\<lparr>conf = \<lparr>Name = ''/tmp/alpine-0'', BoxName = ''alpine'',
                  ProviderName = ''virtualbox'', CPUs = 1, Memory = 1024,
                  Command = ''uname -r''\<rparr>,
          wpc = Selecting\<rparr>],
      agg = Ranging, processed = [], logs = [], done_calls = 0, panicked = None\<rparr>"


definition example_blocked :: state where
  "example_blocked =
     \<lparr>images = [''alpine'', ''alpine''], sm_size = - 1, sm_cur = 0, wg = 1,
      res_wg = 1, res_closed = False, mpc = SmAcquire 0 ''alpine'',
      workers = [], agg = Ranging, processed = [], logs = [], done_calls = 0,
      panicked = None\<rparr>"

definition example_stuck :: state where
  "example_stuck =
     \<lparr>images = [''alpine'', ''alpine''], sm_size = 0, sm_cur = 0, wg = 1,
      res_wg = 1, res_closed = False, mpc = SmAcquire 0 ''alpine'',
      workers = [], agg = Ranging, processed = [], logs = [], done_calls = 0,
      panicked = None\<rparr>"

section \<open>Properties\<close>

subsection \<open>Integers\<close>

lemma wrap64_id: "go_int x \<Longrightarrow> wrap64 x = x"
  unfolding go_int_def wrap64_def by (simp add: mod_pos_pos_trivial)

lemma go_div_pos: "0 \<le> a \<Longrightarrow> 0 < b \<Longrightarrow> go_int a \<Longrightarrow> go_div a b = Inr (a div b)"
proof -
  assume a: "0 \<le> a" and b: "0 < b" and g: "go_int a"
  have "0 \<le> a div b" using a b by (simp add: pos_imp_zdiv_nonneg_iff)
  moreover have "a div b \<le> a" using a b zdiv_mono2 [of a 1 b] by simp
  ultimately have "go_int (a div b)" using g by (simp add: go_int_def)
  then have "wrap64 (a div b) = a div b" by (rule wrap64_id)
  moreover have "sgn a * sgn b * (\<bar>a\<bar> div \<bar>b\<bar>) = a div b"
    using a b by (cases "a = 0") (simp_all add: sgn_if)
  ultimately show ?thesis using b by (simp add: go_div_def)
qed

lemma go_mul_small: "0 \<le> a \<Longrightarrow> 0 \<le> b \<Longrightarrow> a \<le> n \<Longrightarrow> b \<le> n \<Longrightarrow> n < 2 ^ 31 \<Longrightarrow> go_mul a b = a * b"
proof -
  assume a: "0 \<le> a" "0 \<le> b" "a \<le> n" "b \<le> n" "n < 2 ^ 31"
  have "a * b \<le> n * n" using a by (intro mult_mono) auto
  also have "n * n \<le> 2 ^ 31 * 2 ^ 31" using a by (intro mult_mono) auto
  finally have "a * b < 2 ^ 63" by simp
  moreover have "0 \<le> a * b" using a by simp
  ultimately show ?thesis by (simp add: go_mul_def wrap64_id go_int_def)
qed

subsection \<open>Decimal indices and instance names\<close>

lemma digit_inj: "a < 10 \<Longrightarrow> b < 10 \<Longrightarrow> digit a = digit b \<Longrightarrow> a = b"
proof -
  assume a: "a < 10" and b: "b < 10" and e: "digit a = digit b"
  have ca: "a \<in> {0,1,2,3,4,5,6,7,8,9}" using a by auto
  have cb: "b \<in> {0,1,2,3,4,5,6,7,8,9}" using b by auto
  show ?thesis using ca cb e unfolding digit_def by (elim insertE emptyE) simp_all
qed

lemma digit_not_dash: "d < 10 \<Longrightarrow> digit d \<noteq> CHR ''-''"
proof -
  assume a: "d < 10"
  have ca: "d \<in> {0,1,2,3,4,5,6,7,8,9}" using a by auto
  show ?thesis using ca unfolding digit_def by (elim insertE emptyE) simp_all
qed

lemma itoa_no_dash: "CHR ''-'' \<notin> set (itoa n)"
proof (induction n rule: itoa.induct)
  case (1 n)
  show ?case
  proof (cases "n < 10")
    case True
    then show ?thesis using digit_not_dash [of n] by (auto simp: itoa.simps [of n])
  next
    case False
    then show ?thesis using 1 digit_not_dash [of "n mod 10"] by (auto simp: itoa.simps [of n])
  qed
qed

lemma itoa_nonempty: "itoa n \<noteq> []"
  by (simp add: itoa.simps [of n])

lemma itoa_inj: "itoa m = itoa n \<Longrightarrow> m = n"
proof (induction m arbitrary: n rule: itoa.induct)
  case (1 m)
  show ?case
  proof (cases "m < 10")
    case m: True
    show ?thesis
    proof (cases "n < 10")
      case True
      then show ?thesis using m "1.prems" by (simp add: itoa.simps [of m] itoa.simps [of n] digit_inj)
    next
      case False
      then show ?thesis using m "1.prems" itoa_nonempty [of "n div 10"]
        by (simp add: itoa.simps [of m] itoa.simps [of n])
    qed
  next
    case m: False
    show ?thesis
    proof (cases "n < 10")
      case True
      then show ?thesis using m "1.prems" itoa_nonempty [of "m div 10"]
        by (simp add: itoa.simps [of m] itoa.simps [of n])
    next
      case False
      then have e: "itoa (m div 10) = itoa (n div 10)" and d: "digit (m mod 10) = digit (n mod 10)"
        using m "1.prems" by (simp_all add: itoa.simps [of m] itoa.simps [of n])
      have "m div 10 = n div 10" using "1.IH" [OF m e] .
      moreover have "m mod 10 = n mod 10" using d by (simp add: digit_inj)
      ultimately show ?thesis by (metis div_mult_mod_eq)
    qed
  qed
qed

lemma first_sep_unique:
  "x \<notin> set u \<Longrightarrow> x \<notin> set v \<Longrightarrow> u @ x # a = v @ x # b \<Longrightarrow> u = v \<and> a = b"
proof (induction u arbitrary: v)
  case Nil
  then show ?case by (cases v) auto
next
  case (Cons y u)
  then show ?case by (cases v) auto
qed

lemma vm_name_inj: "vm_name a i = vm_name b k \<Longrightarrow> a = b \<and> i = k"
proof -
  assume "vm_name a i = vm_name b k"
  then have "a @ CHR ''-'' # itoa i = b @ CHR ''-'' # itoa k" by (simp add: vm_name_def)
  then have "rev (a @ CHR ''-'' # itoa i) = rev (b @ CHR ''-'' # itoa k)" by simp
  then have "rev (itoa i) @ CHR ''-'' # rev a = rev (itoa k) @ CHR ''-'' # rev b" by simp
  then have "rev (itoa i) = rev (itoa k) \<and> rev a = rev b"
    using itoa_no_dash [of i] itoa_no_dash [of k]
      first_sep_unique [of "CHR ''-''" "rev (itoa i)" "rev (itoa k)" "rev a" "rev b"]
    by simp
  then show ?thesis using itoa_inj by simp
qed

subsection \<open>The invariant of the goroutines\<close>

lemma set_wpc_fields [simp]:
  "images (set_wpc i p s) = images s"
  "sm_size (set_wpc i p s) = sm_size s"
  "sm_cur (set_wpc i p s) = sm_cur s"
  "wg (set_wpc i p s) = wg s"
  "res_wg (set_wpc i p s) = res_wg s"
  "res_closed (set_wpc i p s) = res_closed s"
  "mpc (set_wpc i p s) = mpc s"
  "agg (set_wpc i p s) = agg s"
  "processed (set_wpc i p s) = processed s"
  "logs (set_wpc i p s) = logs s"
  "done_calls (set_wpc i p s) = done_calls s"
  "panicked (set_wpc i p s) = panicked s"
  "length (workers (set_wpc i p s)) = length (workers s)"
  by (simp_all add: set_wpc_def)

lemma set_wpc_nth:
  "k < length (workers s) \<Longrightarrow>
   wpc (workers (set_wpc i p s) ! k) = (if k = i then p else wpc (workers s ! k))
   \<and> conf (workers (set_wpc i p s) ! k) = conf (workers s ! k)"
  by (simp add: set_wpc_def nth_list_update)


lemma filter_update_count:
  "i < length ws \<Longrightarrow>
   int (length (filter Q (ws[i := w]))) =
     int (length (filter Q ws)) - (if Q (ws ! i) then 1 else 0) + (if Q w then 1 else 0)"
proof (induction ws arbitrary: i)
  case Nil
  then show ?case by simp
next
  case (Cons a ws)
  show ?case
  proof (cases i)
    case 0
    then show ?thesis by simp
  next
    case (Suc n)
    then have "n < length ws" using Cons.prems by simp
    from Cons.IH [OF this] show ?thesis using Suc by (auto split: if_splits)
  qed
qed

lemma count_pc_set_wpc:
  "i < length (workers s) \<Longrightarrow>
   int (count_pc P (set_wpc i p s)) =
     int (count_pc P s) - (if P (wpc (workers s ! i)) then 1 else 0) + (if P p then 1 else 0)"
  by (simp add: count_pc_def set_wpc_def filter_update_count)

lemma count_pc_pos:
  "i < length (workers s) \<Longrightarrow> P (wpc (workers s ! i)) \<Longrightarrow> 1 \<le> count_pc P s"
proof -
  assume a: "i < length (workers s)" and b: "P (wpc (workers s ! i))"
  have "workers s ! i \<in> set (filter (\<lambda>w. P (wpc w)) (workers s))" using a b by simp
  then have "filter (\<lambda>w. P (wpc w)) (workers s) \<noteq> []" by (metis empty_iff empty_set)
  then show ?thesis by (simp add: count_pc_def Suc_le_eq)
qed

lemma at_pc_count: "at_pc s i p \<Longrightarrow> P p \<Longrightarrow> 1 \<le> int (count_pc P s)"
  using count_pc_pos [of i s P] by (simp add: at_pc_def)

lemma count_pc_upd [simp]:
  "count_pc P (s\<lparr>sm_cur := a\<rparr>) = count_pc P s"
  "count_pc P (s\<lparr>wg := a\<rparr>) = count_pc P s"
  "count_pc P (s\<lparr>res_wg := a\<rparr>) = count_pc P s"
  "count_pc P (s\<lparr>res_closed := b\<rparr>) = count_pc P s"
  "count_pc P (s\<lparr>mpc := m\<rparr>) = count_pc P s"
  "count_pc P (s\<lparr>agg := g\<rparr>) = count_pc P s"
  "count_pc P (s\<lparr>processed := os\<rparr>) = count_pc P s"
  "count_pc P (s\<lparr>logs := ls\<rparr>) = count_pc P s"
  "count_pc P (s\<lparr>done_calls := n\<rparr>) = count_pc P s"
  "count_pc P (s\<lparr>panicked := x\<rparr>) = count_pc P s"
  by (simp_all add: count_pc_def)

lemma count_pc_snoc [simp]:
  "count_pc P (s\<lparr>workers := workers s @ [w]\<rparr>) = count_pc P s + (if P (wpc w) then 1 else 0)"
  by (simp add: count_pc_def)

lemma invariant_start: "invariant c j (start c j)"
  by (simp add: invariant_def start_def count_pc_def)

lemma invD:
  assumes "invariant c j s"
  shows "images s = Images j" "sm_size s = GlobalInt c ''parallelism''" "panicked s = None"
    "loop_ok (mpc s) (length (workers s)) (images s)"
    "wg s = int (count_pc pending s) + wg_added (mpc s)"
    "sm_cur s = int (count_pc holds_token s) + token_in_hand (mpc s)"
    "sm_cur s \<le> max 0 (sm_size s)"
    "2 \<le> phase (mpc s) \<longrightarrow> wg s = 0"
    "res_closed s \<longleftrightarrow> 3 \<le> phase (mpc s)"
    "res_wg s = (if agg s = AggExited then 0 else 1)"
    "agg s = AggExited \<longrightarrow> res_closed s"
    "4 \<le> phase (mpc s) \<longrightarrow> agg s = AggExited"
    "done_calls s = (if mpc s = Returned then 1 else 0)"
    "\<And>k. k < length (workers s) \<Longrightarrow> conf (workers s ! k) = mk_conf c j (images s ! k) k"
  using assms by (auto simp: invariant_def)

lemma inv_M_Range:
  assumes I: "invariant c j s" and N: "next_state c j s M_Range = Some s'"
  shows "invariant c j s'"
proof -
  from N obtain i where pc: "mpc s = ForRange i"
    and s': "s' = (if i < length (images s)
                   then s\<lparr>wg := wg s + 1, mpc := SmAcquire i (images s ! i)\<rparr>
                   else s\<lparr>mpc := WgWait\<rparr>)"
    by (auto simp: next_state_def split: main_pc.splits if_splits)
  show ?thesis using I pc unfolding s' invariant_def by (auto simp: count_pc_def)
qed

lemma inv_M_Acquire:
  assumes I: "invariant c j s" and N: "next_state c j s M_Acquire = Some s'"
  shows "invariant c j s'"
proof -
  from N obtain i img where pc: "mpc s = SmAcquire i img" and g: "sm_size s - sm_cur s \<ge> 1"
    and s': "s' = s\<lparr>sm_cur := sm_cur s + 1, mpc := GoWorker i img\<rparr>"
    by (auto simp: next_state_def split: main_pc.splits if_splits)
  show ?thesis using I pc g unfolding s' invariant_def by (auto simp: count_pc_def)
qed

lemma inv_M_Go:
  assumes I: "invariant c j s" and N: "next_state c j s M_Go = Some s'"
  shows "invariant c j s'"
proof -
  from N obtain i img where pc: "mpc s = GoWorker i img" 
    and s': "s' = s\<lparr>workers := workers s @ [\<lparr>conf = mk_conf c j img i, wpc = Selecting\<rparr>],
                  mpc := ForRange (i + 1)\<rparr>"
    by (auto simp: next_state_def split: main_pc.splits if_splits)
  show ?thesis using I pc unfolding s' invariant_def by (auto simp: count_pc_def nth_append less_Suc_eq)
qed

lemma inv_M_WgWait:
  assumes I: "invariant c j s" and N: "next_state c j s M_WgWait = Some s'"
  shows "invariant c j s'"
proof -
  from N have g: "mpc s = WgWait" "wg s = 0" and s': "s' = s\<lparr>mpc := CloseResCh\<rparr>"
    by (auto simp: next_state_def split: if_splits)
  note D = invD [OF I]
  show ?thesis unfolding invariant_def s' using D g
    by (intro conjI) simp_all
qed

lemma inv_M_Close:
  assumes I: "invariant c j s" and N: "next_state c j s M_Close = Some s'"
  shows "invariant c j s'"
proof -
  note D = invD [OF I]
  from N have g: "mpc s = CloseResCh" by (auto simp: next_state_def split: if_splits)
  then have "\<not> res_closed s" using D(9) by simp
  then have s': "s' = s\<lparr>res_closed := True, mpc := ResWgWait\<rparr>"
    using N by (auto simp: next_state_def split: if_splits)
  show ?thesis unfolding invariant_def s' using D g
    by (intro conjI) simp_all
qed

lemma inv_M_ResWait:
  assumes I: "invariant c j s" and N: "next_state c j s M_ResWait = Some s'"
  shows "invariant c j s'"
proof -
  from N have g: "mpc s = ResWgWait" "res_wg s = 0" and s': "s' = s\<lparr>mpc := JobDone\<rparr>"
    by (auto simp: next_state_def split: if_splits)
  note D = invD [OF I]
  have "agg s = AggExited" using D(10) g by (simp split: if_splits)
  then show ?thesis unfolding invariant_def s' using D g
    by (intro conjI) simp_all
qed

lemma inv_M_JobDone:
  assumes I: "invariant c j s" and N: "next_state c j s M_JobDone = Some s'"
  shows "invariant c j s'"
proof -
  from N have g: "mpc s = JobDone"
    and s': "s' = s\<lparr>done_calls := done_calls s + 1, mpc := Returned\<rparr>"
    by (auto simp: next_state_def split: if_splits)
  note D = invD [OF I]
  show ?thesis unfolding invariant_def s' using D g
    by (intro conjI) simp_all
qed

lemma inv_A_Process:
  assumes I: "invariant c j s" and N: "next_state c j s A_Process = Some s'"
  shows "invariant c j s'"
proof -
  from N obtain out where g: "agg s = Processing out"
    and s': "s' = s\<lparr>processed := processed s @ [out], agg := Ranging\<rparr>"
    by (auto simp: next_state_def split: if_splits agg_pc.splits)
  note D = invD [OF I]
  have "phase (mpc s) < 4" using D(12) g by (cases "4 \<le> phase (mpc s)") auto
  then show ?thesis unfolding invariant_def s' using D g
    by (intro conjI) simp_all
qed

lemma inv_A_Exit:
  assumes I: "invariant c j s" and N: "next_state c j s A_Exit = Some s'"
  shows "invariant c j s'"
proof -
  from N have g: "agg s = Ranging" "res_closed s"
    and s': "s' = s\<lparr>res_wg := res_wg s - 1, agg := AggExited\<rparr>"
    by (auto simp: next_state_def split: if_splits)
  note D = invD [OF I]
  show ?thesis unfolding invariant_def s' using D g
    by (intro conjI) simp_all
qed

lemma after_select_live: "holds_token (after_select r) \<and> pending (after_select r)"
  by (simp add: after_select_def split: option.splits)

text \<open>A worker moves from one program point to another: the effect on the invariant.\<close>

lemma inv_move:
  assumes I: "invariant c j s" and at: "at_pc s i p" and pp: "pending p"
    and t: "workers t = workers s" "images t = images s" "sm_size t = sm_size s"
      "res_wg t = res_wg s" "res_closed t = res_closed s" "mpc t = mpc s"
      "done_calls t = done_calls s" "panicked t = None"
    and wg: "wg t = wg s - (if pending p then 1 else 0) + (if pending q then 1 else 0)"
    and sm: "sm_cur t = sm_cur s - (if holds_token p then 1 else 0) + (if holds_token q then 1 else 0)"
    and le: "sm_cur t \<le> max 0 (sm_size s)"
    and ag: "agg t = agg s \<or> (agg t \<noteq> AggExited \<and> agg s \<noteq> AggExited)"
  shows "invariant c j (set_wpc i q t)"
proof -
  note D = invD [OF I]
  have i: "i < length (workers t)" and w: "wpc (workers t ! i) = p"
    using at t(1) by (simp_all add: at_pc_def)
  have eq: "count_pc P t = count_pc P s" for P
    using t(1) by (simp add: count_pc_def)
  have cnt: "int (count_pc P (set_wpc i q t)) =
      int (count_pc P s) - (if P p then 1 else 0) + (if P q then 1 else 0)" for P
    using count_pc_set_wpc [OF i, of P q] w eq [of P] by simp
  have nth: "\<forall>k < length (workers (set_wpc i q t)).
      conf (workers (set_wpc i q t) ! k) = mk_conf c j (images (set_wpc i q t) ! k) k"
    using set_wpc_nth [of _ t i q] D(14) t(1,2) by simp
  have a: "agg t = AggExited \<longleftrightarrow> agg s = AggExited" using ag by auto
  have "1 \<le> int (count_pc pending s)" using at_pc_count [OF at, of pending] pp by simp
  moreover have "0 \<le> wg_added (mpc s)" by (cases "mpc s") simp_all
  ultimately have ph: "\<not> 2 \<le> phase (mpc s)" using D(5,8) by auto
  show ?thesis unfolding invariant_def
    using D(1-13) t wg sm le a cnt [of pending] cnt [of holds_token] nth ph
    by (intro conjI) simp_all
qed

lemma inv_W_Recv:
  assumes I: "invariant c j s" and N: "next_state c j s (W_Recv i ev) = Some s'"
  shows "invariant c j s'"
proof -
  define r where "r = worker_select (conf (workers s ! i)) ev"
  define t where "t = s\<lparr>logs := logs s @ [logged r]\<rparr>"
  from N have at: "at_pc s i Selecting" and s': "s' = set_wpc i (after_select r) t"
    by (auto simp: next_state_def Let_def r_def t_def split: if_splits)
  note D = invD [OF I]
  show ?thesis unfolding s'
    using D(3,7) after_select_live [of r]
    by (intro inv_move [OF I at]) (simp_all add: t_def)
qed

lemma inv_W_Send:
  assumes I: "invariant c j s" and N: "next_state c j s (W_Send i out) = Some s'"
  shows "invariant c j s'"
proof -
  note D = invD [OF I]
  from N have at: "at_pc s i (Sending out)"
    by (auto simp: next_state_def split: if_splits)
  have "1 \<le> int (count_pc pending s)" using at_pc_count [OF at, of pending] by simp
  then have "wg s \<noteq> 0" using D(5) by (cases "mpc s") auto
  then have "\<not> res_closed s" using D(8,9) by auto
  then have g: "agg s = Ranging" and s': "s' = set_wpc i Selecting (s\<lparr>agg := Processing out\<rparr>)"
    using N by (auto simp: next_state_def split: if_splits)
  show ?thesis unfolding s'
    using D(3,7) g by (intro inv_move [OF I at]) simp_all
qed

lemma inv_W_Release:
  assumes I: "invariant c j s" and N: "next_state c j s (W_Release i) = Some s'"
  shows "invariant c j s'"
proof -
  note D = invD [OF I]
  from N have at: "at_pc s i DeferRelease"
    by (auto simp: next_state_def split: if_splits)
  have "1 \<le> int (count_pc holds_token s)" using at_pc_count [OF at, of holds_token] by simp
  then have "1 \<le> sm_cur s" using D(6) by (cases "mpc s") auto
  then have s': "s' = set_wpc i DeferWgDone (s\<lparr>sm_cur := sm_cur s - 1\<rparr>)"
    using N by (auto simp: next_state_def split: if_splits)
  show ?thesis unfolding s'
    using D(3,7) by (intro inv_move [OF I at]) simp_all
qed

lemma inv_W_WgDone:
  assumes I: "invariant c j s" and N: "next_state c j s (W_WgDone i) = Some s'"
  shows "invariant c j s'"
proof -
  note D = invD [OF I]
  from N have at: "at_pc s i DeferWgDone"
    by (auto simp: next_state_def split: if_splits)
  have "1 \<le> int (count_pc pending s)" using at_pc_count [OF at, of pending] by simp
  then have "1 \<le> wg s" using D(5) by (cases "mpc s") auto
  then have s': "s' = set_wpc i Exited (s\<lparr>wg := wg s - 1\<rparr>)"
    using N by (auto simp: next_state_def split: if_splits)
  show ?thesis unfolding s'
    using D(3,7) by (intro inv_move [OF I at]) simp_all
qed

lemma invariant_step:
  assumes "invariant c j s" and "next_state c j s a = Some s'"
  shows "invariant c j s'"
  using assms
  by (cases a)
    (blast intro: inv_M_Range inv_M_Acquire inv_M_Go inv_M_WgWait inv_M_Close inv_M_ResWait
      inv_M_JobDone inv_A_Process inv_A_Exit inv_W_Recv inv_W_Send inv_W_Release inv_W_WgDone)+

lemma exec_snoc:
  "exec c j s (as @ [a]) =
     (case exec c j s as of None \<Rightarrow> None | Some t \<Rightarrow> next_state c j t a)"
  by (induction as arbitrary: s) (simp_all split: option.splits)

lemma exec_append:
  "exec c j s (as @ bs) =
     (case exec c j s as of None \<Rightarrow> None | Some t \<Rightarrow> exec c j t bs)"
  by (induction as arbitrary: s) (simp_all split: option.splits)

lemma reach_snoc:
  "reach c j (as @ [a]) s' \<longleftrightarrow> (\<exists>s. reach c j as s \<and> next_state c j s a = Some s')"
  by (simp add: reach_def exec_snoc split: option.splits)

lemma reach_invariant: "reach c j as s \<Longrightarrow> invariant c j s"
proof (induction as arbitrary: s rule: rev_induct)
  case Nil
  then show ?case by (auto simp: reach_def invariant_start)
next
  case (snoc a as)
  from snoc.prems obtain t where "reach c j as t" "next_state c j t a = Some s"
    by (auto simp: reach_snoc)
  then show ?case using snoc.IH invariant_step by blast
qed

text \<open>
  The steps that a reachable state can take: no branch that panics is among them.
\<close>

lemma step_cases [consumes 2, case_names Range_in Range_out Acquire Go WgWait Close ResWait
    JobDone Recv Send Release WgDone Process Exit]:
  assumes I: "invariant c j s" and N: "next_state c j s a = Some s'"
  obtains
    i where "a = M_Range" "mpc s = ForRange i" "i < length (images s)"
      "s' = s\<lparr>wg := wg s + 1, mpc := SmAcquire i (images s ! i)\<rparr>"
  | i where "a = M_Range" "mpc s = ForRange i" "\<not> i < length (images s)"
      "s' = s\<lparr>mpc := WgWait\<rparr>"
  | i img where "a = M_Acquire" "mpc s = SmAcquire i img" "sm_cur s < sm_size s"
      "s' = s\<lparr>sm_cur := sm_cur s + 1, mpc := GoWorker i img\<rparr>"
  | i img where "a = M_Go" "mpc s = GoWorker i img"
      "s' = s\<lparr>workers := workers s @ [\<lparr>conf = mk_conf c j img i, wpc = Selecting\<rparr>],
              mpc := ForRange (i + 1)\<rparr>"
  | "a = M_WgWait" "mpc s = WgWait" "wg s = 0" "s' = s\<lparr>mpc := CloseResCh\<rparr>"
  | "a = M_Close" "mpc s = CloseResCh" "s' = s\<lparr>res_closed := True, mpc := ResWgWait\<rparr>"
  | "a = M_ResWait" "mpc s = ResWgWait" "agg s = AggExited" "s' = s\<lparr>mpc := JobDone\<rparr>"
  | "a = M_JobDone" "mpc s = JobDone"
      "s' = s\<lparr>done_calls := done_calls s + 1, mpc := Returned\<rparr>"
  | i ev where "a = W_Recv i ev" "at_pc s i Selecting"
      "s' = set_wpc i (after_select (worker_select (conf (workers s ! i)) ev))
              (s\<lparr>logs := logs s @ [logged (worker_select (conf (workers s ! i)) ev)]\<rparr>)"
  | i out where "a = W_Send i out" "at_pc s i (Sending out)" "agg s = Ranging"
      "\<not> res_closed s" "s' = set_wpc i Selecting (s\<lparr>agg := Processing out\<rparr>)"
  | i where "a = W_Release i" "at_pc s i DeferRelease"
      "s' = set_wpc i DeferWgDone (s\<lparr>sm_cur := sm_cur s - 1\<rparr>)"
  | i where "a = W_WgDone i" "at_pc s i DeferWgDone"
      "s' = set_wpc i Exited (s\<lparr>wg := wg s - 1\<rparr>)"
  | out where "a = A_Process" "agg s = Processing out"
      "s' = s\<lparr>processed := processed s @ [out], agg := Ranging\<rparr>"
  | "a = A_Exit" "agg s = Ranging" "res_closed s"
      "s' = s\<lparr>res_wg := res_wg s - 1, agg := AggExited\<rparr>"
proof -
  note D = invD [OF I]
  have np: "panicked s' = None" using invD(3) [OF invariant_step [OF I N]] .
  show thesis
  proof (cases a)
    case M_Range
    then show ?thesis using N that(1,2)
      by (auto simp: next_state_def split: main_pc.splits if_splits)
  next
    case M_Acquire
    then show ?thesis using N that(3)
      by (auto simp: next_state_def split: main_pc.splits if_splits)
  next
    case M_Go
    then show ?thesis using N that(4)
      by (auto simp: next_state_def split: main_pc.splits if_splits)
  next
    case M_WgWait
    then show ?thesis using N that(5)
      by (auto simp: next_state_def split: if_splits)
  next
    case M_Close
    then show ?thesis using N np that(6)
      by (auto simp: next_state_def split: if_splits)
  next
    case M_ResWait
    then have "mpc s = ResWgWait" "res_wg s = 0" "s' = s\<lparr>mpc := JobDone\<rparr>"
      using N by (auto simp: next_state_def split: if_splits)
    moreover have "agg s = AggExited" using D(10) \<open>res_wg s = 0\<close> by (simp split: if_splits)
    ultimately show ?thesis using that(7) M_ResWait by simp
  next
    case M_JobDone
    then show ?thesis using N that(8)
      by (auto simp: next_state_def split: if_splits)
  next
    case (W_Recv i ev)
    then show ?thesis using N that(9)
      by (auto simp: next_state_def Let_def split: if_splits)
  next
    case (W_Send i out)
    then show ?thesis using N np that(10)
      by (auto simp: next_state_def split: if_splits)
  next
    case (W_Release i)
    then show ?thesis using N np that(11)
      by (auto simp: next_state_def split: if_splits)
  next
    case (W_WgDone i)
    then show ?thesis using N np that(12)
      by (auto simp: next_state_def split: if_splits)
  next
    case A_Process
    then show ?thesis using N that(13)
      by (auto simp: next_state_def split: agg_pc.splits if_splits)
  next
    case A_Exit
    then show ?thesis using N that(14)
      by (auto simp: next_state_def split: if_splits)
  qed
qed

subsection \<open>Schedules and states\<close>

lemma pcs_upd [simp]:
  "pcs (s\<lparr>sm_cur := a\<rparr>) = pcs s"
  "pcs (s\<lparr>wg := a\<rparr>) = pcs s"
  "pcs (s\<lparr>res_wg := a\<rparr>) = pcs s"
  "pcs (s\<lparr>res_closed := b\<rparr>) = pcs s"
  "pcs (s\<lparr>mpc := m\<rparr>) = pcs s"
  "pcs (s\<lparr>agg := g\<rparr>) = pcs s"
  "pcs (s\<lparr>processed := os\<rparr>) = pcs s"
  "pcs (s\<lparr>logs := ls\<rparr>) = pcs s"
  "pcs (s\<lparr>done_calls := n\<rparr>) = pcs s"
  "pcs (s\<lparr>panicked := x\<rparr>) = pcs s"
  "pcs (s\<lparr>workers := workers s @ [w]\<rparr>) = pcs s @ [wpc w]"
  "pcs (set_wpc i q s) = (pcs s)[i := q]"
  by (simp_all add: pcs_def set_wpc_def map_update)

lemma at_pc_pcs: "at_pc s i p \<longleftrightarrow> i < length (pcs s) \<and> pcs s ! i = p"
  by (auto simp: at_pc_def pcs_def)

lemma length_pcs [simp]: "length (pcs s) = length (workers s)"
  by (simp add: pcs_def)

lemma released_at_snoc: "holds_token p \<Longrightarrow> released_at (ps @ [p]) i = released_at ps i"
  by (auto simp: released_at_def nth_append)

lemma released_at_same:
  "k < length ps \<Longrightarrow> holds_token (ps ! k) = holds_token q \<Longrightarrow>
   released_at (ps[k := q]) i = released_at ps i"
  by (auto simp: released_at_def nth_list_update)

lemma released_at_release:
  "k < length ps \<Longrightarrow> holds_token (ps ! k) \<Longrightarrow> \<not> holds_token q \<Longrightarrow>
   released_at (ps[k := q]) i = released_at ps i + (if i = k then 1 else 0)"
  by (auto simp: released_at_def nth_list_update)

lemma release_count:
  "reach c j as s \<Longrightarrow> count_list as (W_Release i) = released_at (pcs s) i"
proof (induction as arbitrary: s rule: rev_induct)
  case Nil
  then show ?case by (auto simp: reach_def start_def released_at_def pcs_def)
next
  case (snoc a as)
  from snoc.prems obtain t where t: "reach c j as t" and N: "next_state c j t a = Some s"
    by (auto simp: reach_snoc)
  note IH = snoc.IH [OF t]
  from reach_invariant [OF t] N show ?case
  proof (cases rule: step_cases)
    case (Go k img)
    then show ?thesis using IH by (simp add: released_at_snoc)
  next
    case (Recv k ev)
    then show ?thesis using IH after_select_live
      by (simp add: released_at_same at_pc_pcs)
  next
    case (Send k out)
    then show ?thesis using IH
      by (simp add: released_at_same at_pc_pcs)
  next
    case (Release k)
    then show ?thesis using IH
      by (auto simp: released_at_release at_pc_pcs)
  next
    case (WgDone k)
    then show ?thesis using IH
      by (simp add: released_at_same at_pc_pcs)
  qed (use IH in simp_all)
qed

lemma tokens_out_snoc:
  "tokens_out (as @ [a]) =
     tokens_out as + (if a = M_Acquire then 1 else 0) - (if is_release a then 1 else 0)"
  by (simp add: tokens_out_def)

lemma tokens_out_sm_cur: "reach c j as s \<Longrightarrow> tokens_out as = sm_cur s"
proof (induction as arbitrary: s rule: rev_induct)
  case Nil
  then show ?case by (auto simp: reach_def start_def tokens_out_def)
next
  case (snoc a as)
  from snoc.prems obtain t where t: "reach c j as t" and N: "next_state c j t a = Some s"
    by (auto simp: reach_snoc)
  note IH = snoc.IH [OF t]
  from reach_invariant [OF t] N show ?case
    by (cases rule: step_cases) (use IH in \<open>simp_all add: tokens_out_snoc\<close>)
qed

lemma dispatch_counts:
  "reach c j as s \<Longrightarrow>
   count_list as M_Go = length (workers s) \<and>
   int (count_list as M_Acquire) = int (length (workers s)) + token_in_hand (mpc s)"
proof (induction as arbitrary: s rule: rev_induct)
  case Nil
  then show ?case by (auto simp: reach_def start_def)
next
  case (snoc a as)
  from snoc.prems obtain t where t: "reach c j as t" and N: "next_state c j t a = Some s"
    by (auto simp: reach_snoc)
  note IH = snoc.IH [OF t]
  from reach_invariant [OF t] N show ?case
    by (cases rule: step_cases) (use IH in simp_all)
qed

lemma sent_processed:
  "reach c j as s \<Longrightarrow>
   sent as = processed s @ (case agg s of Processing out \<Rightarrow> [out] | _ \<Rightarrow> [])"
proof (induction as arbitrary: s rule: rev_induct)
  case Nil
  then show ?case by (auto simp: reach_def start_def sent_def)
next
  case (snoc a as)
  from snoc.prems obtain t where t: "reach c j as t" and N: "next_state c j t a = Some s"
    by (auto simp: reach_snoc)
  note IH = snoc.IH [OF t]
  from reach_invariant [OF t] N show ?case
    by (cases rule: step_cases) (use IH in \<open>simp_all add: sent_def\<close>)
qed

lemma done_count: "reach c j as s \<Longrightarrow> count_list as M_JobDone = done_calls s"
proof (induction as arbitrary: s rule: rev_induct)
  case Nil
  then show ?case by (auto simp: reach_def start_def)
next
  case (snoc a as)
  from snoc.prems obtain t where t: "reach c j as t" and N: "next_state c j t a = Some s"
    by (auto simp: reach_snoc)
  note IH = snoc.IH [OF t]
  from reach_invariant [OF t] N show ?case
    by (cases rule: step_cases) (use IH in simp_all)
qed

lemma exited_snoc: "p \<noteq> Exited \<Longrightarrow> exited (ps @ [p]) = exited ps"
  by (auto simp: exited_def nth_append)

lemma exited_move:
  "k < length ps \<Longrightarrow> ps ! k \<noteq> Exited \<Longrightarrow> q \<noteq> Exited \<Longrightarrow> exited (ps[k := q]) = exited ps"
  by (auto simp: exited_def nth_list_update)

lemma exited_exit:
  "k < length ps \<Longrightarrow> exited (ps[k := Exited]) = insert k (exited ps)"
  by (auto simp: exited_def nth_list_update)

lemma after_select_not_Exited: "after_select r \<noteq> Exited"
  using after_select_live [of r] by auto

lemma shutdown_seq_agg:
  "(g = AggExited \<longleftrightarrow> g' = AggExited) \<Longrightarrow> shutdown_seq p g = shutdown_seq p g'"
  by (cases p; cases g; cases g') simp_all

lemma shutdown_seq_early: "phase p < 2 \<Longrightarrow> shutdown_seq p g = []"
  by (cases p) simp_all

lemma busy_phase:
  assumes I: "invariant c j s" and at: "at_pc s i p" and p: "pending p"
  shows "phase (mpc s) < 2"
proof -
  note D = invD [OF I]
  have "1 \<le> int (count_pc pending s)" using at_pc_count [OF at, of pending] p by simp
  moreover have "0 \<le> wg_added (mpc s)" by (cases "mpc s") simp_all
  ultimately show ?thesis using D(5,8) by auto
qed

lemma returned_exited:
  "reach c j as s \<Longrightarrow> distinct (returned as) \<and> set (returned as) = exited (pcs s)"
proof (induction as arbitrary: s rule: rev_induct)
  case Nil
  then show ?case by (auto simp: reach_def start_def returned_def exited_def pcs_def)
next
  case (snoc a as)
  from snoc.prems obtain t where t: "reach c j as t" and N: "next_state c j t a = Some s"
    by (auto simp: reach_snoc)
  note IH = snoc.IH [OF t]
  from reach_invariant [OF t] N show ?case
  proof (cases rule: step_cases)
    case (Go k img)
    then show ?thesis using IH by (simp add: returned_def exited_snoc)
  next
    case (Recv k ev)
    then show ?thesis using IH
      by (simp add: returned_def exited_move at_pc_pcs after_select_not_Exited)
  next
    case (Send k out)
    then show ?thesis using IH by (simp add: returned_def exited_move at_pc_pcs)
  next
    case (Release k)
    then show ?thesis using IH by (simp add: returned_def exited_move at_pc_pcs)
  next
    case (WgDone k)
    then have "k \<notin> exited (pcs t)" by (simp add: exited_def at_pc_pcs)
    then show ?thesis using IH WgDone by (simp add: returned_def exited_exit at_pc_pcs)
  qed (use IH in \<open>simp_all add: returned_def\<close>)
qed

lemma milestones_shape:
  "reach c j as s \<Longrightarrow>
   milestones as = map W_WgDone (returned as) @ shutdown_seq (mpc s) (agg s)"
proof (induction as arbitrary: s rule: rev_induct)
  case Nil
  then show ?case by (auto simp: reach_def start_def returned_def milestones_def)
next
  case (snoc a as)
  from snoc.prems obtain t where t: "reach c j as t" and N: "next_state c j t a = Some s"
    by (auto simp: reach_snoc)
  note IH = snoc.IH [OF t]
  note I = reach_invariant [OF t]
  note D = invD [OF I]
  from I N show ?case
  proof (cases rule: step_cases)
    case Close
    then have "agg t \<noteq> AggExited" using D(9,11) by auto
    then show ?thesis using IH Close
      by (cases "agg t") (simp_all add: returned_def milestones_def)
  next
    case (Recv k ev)
    then show ?thesis using IH by (simp add: returned_def milestones_def)
  next
    case (Send k out)
    then show ?thesis using IH shutdown_seq_agg [of "Processing out" "agg t" "mpc t"]
      by (simp add: returned_def milestones_def)
  next
    case (Release k)
    then show ?thesis using IH by (simp add: returned_def milestones_def)
  next
    case (WgDone k)
    then have "phase (mpc t) < 2" using busy_phase [OF I, of k DeferWgDone] by simp
    then show ?thesis using IH WgDone
      by (simp add: returned_def milestones_def shutdown_seq_early)
  next
    case (Process out)
    then show ?thesis using IH shutdown_seq_agg [of Ranging "agg t" "mpc t"]
      by (simp add: returned_def milestones_def)
  next
    case Exit
    then have "mpc t = ResWgWait" using D(9,12) by (cases "mpc t") auto
    then show ?thesis using IH Exit by (simp add: returned_def milestones_def)
  qed (use IH in \<open>simp_all add: returned_def milestones_def\<close>)
qed

lemma returned_terminal:
  assumes I: "invariant c j s" and r: "mpc s = Returned"
  shows "next_state c j s a = None"
proof (cases "next_state c j s a")
  case None
  then show ?thesis .
next
  case (Some s')
  note D = invD [OF I]
  have g: "agg s = AggExited" using D(12) r by simp
  have b: "at_pc s i p \<Longrightarrow> pending p \<Longrightarrow> False" for i p
    using busy_phase [OF I, of i p] r by auto
  from I Some have False
  proof (cases rule: step_cases)
    case (Recv i ev)
    then show ?thesis using b [of i Selecting] by simp
  next
    case (Send i out)
    then show ?thesis using b [of i "Sending out"] by simp
  next
    case (Release i)
    then show ?thesis using b [of i DeferRelease] by simp
  next
    case (WgDone i)
    then show ?thesis using b [of i DeferWgDone] by simp
  qed (use r g in simp_all)
  then show ?thesis ..
qed

lemma all_exited:
  assumes I: "invariant c j s" and ph: "2 \<le> phase (mpc s)"
  shows "exited (pcs s) = {..<length (Images j)}"
proof -
  note D = invD [OF I]
  have len: "length (workers s) = length (Images j)"
    using D(1,4) ph by (cases "mpc s") simp_all
  have "pcs s ! i = Exited" if "i < length (workers s)" for i
  proof (rule ccontr)
    assume "pcs s ! i \<noteq> Exited"
    then have "pending (pcs s ! i)" by (cases "pcs s ! i") simp_all
    then have "phase (mpc s) < 2"
      using busy_phase [OF I, of i "pcs s ! i"] that by (simp add: at_pc_pcs)
    then show False using ph by simp
  qed
  then show ?thesis using len by (auto simp: exited_def)
qed

subsection \<open>The sequential schedule completes\<close>

lemma serve_round:
  assumes "1 \<le> GlobalInt c ''parallelism''" and "k < length (Images j)"
  shows "exec c j (served c j k) (serve k) = Some (served c j (Suc k))"
  using assms
  by (simp add: served_def serve_def start_def next_state_def at_pc_def set_wpc_def
      after_select_def mk_conf_def nth_append list_update_append)

lemma served_reach:
  assumes "Images j = [] \<or> 1 \<le> GlobalInt c ''parallelism''"
  shows "k \<le> length (Images j) \<Longrightarrow>
    exec c j (start c j) (concat (map serve [0..<k])) = Some (served c j k)"
proof (induction k)
  case 0
  then show ?case by (simp add: served_def start_def)
next
  case (Suc k)
  then have k: "k < length (Images j)" by simp
  then have "1 \<le> GlobalInt c ''parallelism''" using assms by auto
  then show ?case using Suc k by (simp add: exec_append serve_round)
qed

lemma serial_completes:
  assumes "Images j = [] \<or> 1 \<le> GlobalInt c ''parallelism''"
  shows "\<exists>t. reach c j (serial (length (Images j))) t \<and> mpc t = Returned \<and> done_calls t = 1"
proof -
  let ?n = "length (Images j)"
  have 1: "exec c j (start c j) (concat (map serve [0..<?n])) = Some (served c j ?n)"
    using served_reach [OF assms, of ?n] by simp
  have 2: "exec c j (served c j ?n) [M_Range, M_WgWait, M_Close, A_Exit, M_ResWait, M_JobDone] =
      Some ((served c j ?n)\<lparr>res_wg := 0, res_closed := True, mpc := Returned, agg := AggExited,
              done_calls := 1\<rparr>)"
    by (simp add: served_def start_def next_state_def)
  show ?thesis using 1 2 by (simp add: reach_def serial_def exec_append)
qed

subsection \<open>Every reachable state can complete\<close>

text \<open>
  With a parallelism of at least one (or no image at all) some step is enabled in every
  reachable state that has not returned, and it lowers the measure: the run can always
  be continued to the return of \<open>runApp\<close>. With a parallelism below one and an image
  the dispatch loop never passes its first acquire.
\<close>

lemma wsum_update:
  "i < length ps \<Longrightarrow>
   sum_list (map wrank (ps[i := q])) + wrank (ps ! i) = sum_list (map wrank ps) + wrank q"
proof (induction ps arbitrary: i)
  case Nil
  then show ?case by simp
next
  case (Cons a ps)
  show ?case
  proof (cases i)
    case 0
    then show ?thesis by simp
  next
    case (Suc n)
    then have "n < length ps" using Cons.prems by simp
    from Cons.IH [OF this] show ?thesis using Suc by simp
  qed
qed

lemma rank_move:
  assumes "at_pc t i p" and "wrank q + arank (agg t) < wrank p + arank g"
    and "mpc t = mpc s" "images t = images s" "pcs t = pcs s" "agg s = g"
  shows "rank (set_wpc i q t) < rank s"
proof -
  have i: "i < length (pcs s)" and p: "pcs s ! i = p"
    using assms(1,5) by (simp_all add: at_pc_pcs)
  show ?thesis using wsum_update [OF i, of q] p assms(2-6) by (simp add: rank_def)
qed

lemma none_pending:
  assumes "\<forall>i < length (pcs s). pcs s ! i = Exited"
  shows "count_pc pending s = 0 \<and> count_pc holds_token s = 0"
proof -
  have "wpc w = Exited" if "w \<in> set (workers s)" for w
  proof -
    from that obtain i where "i < length (workers s)" "workers s ! i = w"
      by (auto simp: in_set_conv_nth)
    then show ?thesis using assms by (auto simp: pcs_def)
  qed
  then show ?thesis by (simp add: count_pc_def)
qed

lemma progress:
  assumes I: "invariant c j s"
    and P: "Images j = [] \<or> 1 \<le> GlobalInt c ''parallelism''"
    and R: "mpc s \<noteq> Returned"
  shows "\<exists>a s'. next_state c j s a = Some s' \<and> rank s' < rank s"
proof -
  note D = invD [OF I]
  show ?thesis
  proof (cases "\<exists>out. agg s = Processing out")
    case True
    then obtain out where g: "agg s = Processing out" by blast
    have "next_state c j s A_Process = Some (s\<lparr>processed := processed s @ [out], agg := Ranging\<rparr>)"
      using g D(3) by (simp add: next_state_def)
    moreover have "rank (s\<lparr>processed := processed s @ [out], agg := Ranging\<rparr>) < rank s"
      using g by (simp add: rank_def)
    ultimately show ?thesis by blast
  next
    case noproc: False
    show ?thesis
    proof (cases "\<exists>i < length (pcs s). pcs s ! i \<noteq> Exited")
      case True
      then obtain i where i: "i < length (pcs s)" and ne: "pcs s ! i \<noteq> Exited" by blast
      have at: "at_pc s i (pcs s ! i)" using i by (simp add: at_pc_pcs)
      have pend: "pending (pcs s ! i)" using ne by (cases "pcs s ! i") simp_all
      have ph: "phase (mpc s) < 2" using busy_phase [OF I at pend] .
      show ?thesis
      proof (cases "pcs s ! i")
        case Selecting
        let ?r = "worker_select (conf (workers s ! i)) Done"
        let ?t = "s\<lparr>logs := logs s @ [logged ?r]\<rparr>"
        have a: "at_pc s i Selecting" using at Selecting by simp
        have "next_state c j s (W_Recv i Done) = Some (set_wpc i DeferRelease ?t)"
          using a D(3) by (simp add: next_state_def after_select_def)
        moreover have "rank (set_wpc i DeferRelease ?t) < rank s"
          by (rule rank_move [of ?t i Selecting _ "agg s"]) (use a in \<open>simp_all add: at_pc_def\<close>)
        ultimately show ?thesis by blast
      next
        case (Sending out)
        have a: "at_pc s i (Sending out)" using at Sending by simp
        have nc: "\<not> res_closed s" using D(9) ph by simp
        then have "agg s \<noteq> AggExited" using D(11) by auto
        then have g: "agg s = Ranging" using noproc by (cases "agg s") auto
        let ?t = "s\<lparr>agg := Processing out\<rparr>"
        have "next_state c j s (W_Send i out) = Some (set_wpc i Selecting ?t)"
          using a nc g D(3) by (simp add: next_state_def)
        moreover have "rank (set_wpc i Selecting ?t) < rank s"
          by (rule rank_move [of ?t i "Sending out" _ "agg s"]) (use a g in \<open>simp_all add: at_pc_def\<close>)
        ultimately show ?thesis by blast
      next
        case DeferRelease
        have a: "at_pc s i DeferRelease" using at DeferRelease by simp
        have "1 \<le> int (count_pc holds_token s)" using at_pc_count [OF a, of holds_token] by simp
        moreover have "0 \<le> token_in_hand (mpc s)" by (cases "mpc s") simp_all
        ultimately have c1: "1 \<le> sm_cur s" using D(6) by simp
        let ?t = "s\<lparr>sm_cur := sm_cur s - 1\<rparr>"
        have "next_state c j s (W_Release i) = Some (set_wpc i DeferWgDone ?t)"
          using a c1 D(3) by (simp add: next_state_def)
        moreover have "rank (set_wpc i DeferWgDone ?t) < rank s"
          by (rule rank_move [of ?t i DeferRelease _ "agg s"]) (use a in \<open>simp_all add: at_pc_def\<close>)
        ultimately show ?thesis by blast
      next
        case DeferWgDone
        have a: "at_pc s i DeferWgDone" using at DeferWgDone by simp
        have "1 \<le> int (count_pc pending s)" using at_pc_count [OF a, of pending] by simp
        moreover have "0 \<le> wg_added (mpc s)" by (cases "mpc s") simp_all
        ultimately have c1: "1 \<le> wg s" using D(5) by simp
        let ?t = "s\<lparr>wg := wg s - 1\<rparr>"
        have "next_state c j s (W_WgDone i) = Some (set_wpc i Exited ?t)"
          using a c1 D(3) by (simp add: next_state_def)
        moreover have "rank (set_wpc i Exited ?t) < rank s"
          by (rule rank_move [of ?t i DeferWgDone _ "agg s"]) (use a in \<open>simp_all add: at_pc_def\<close>)
        ultimately show ?thesis by blast
      next
        case Exited
        then show ?thesis using ne by simp
      qed
    next
      case False
      then have z: "count_pc pending s = 0" "count_pc holds_token s = 0"
        using none_pending [of s] by auto
      show ?thesis
      proof (cases "mpc s")
        case (ForRange i)
        show ?thesis
        proof (cases "i < length (images s)")
          case True
          let ?s' = "s\<lparr>wg := wg s + 1, mpc := SmAcquire i (images s ! i)\<rparr>"
          have "next_state c j s M_Range = Some ?s'"
            using ForRange True D(3) by (simp add: next_state_def)
          moreover have "rank ?s' < rank s" using ForRange by (simp add: rank_def)
          ultimately show ?thesis by blast
        next
          case False
          let ?s' = "s\<lparr>mpc := WgWait\<rparr>"
          have "next_state c j s M_Range = Some ?s'"
            using ForRange False D(3) by (simp add: next_state_def)
          moreover have "rank ?s' < rank s" using ForRange by (simp add: rank_def)
          ultimately show ?thesis by blast
        qed
      next
        case (SmAcquire i img)
        then have "Images j \<noteq> []" using D(1,4) by auto
        then have "1 \<le> sm_size s" using P D(2) by simp
        moreover have "sm_cur s = 0" using D(6) z SmAcquire by simp
        ultimately have "next_state c j s M_Acquire =
            Some (s\<lparr>sm_cur := sm_cur s + 1, mpc := GoWorker i img\<rparr>)"
          using SmAcquire D(3) by (simp add: next_state_def)
        moreover have "rank (s\<lparr>sm_cur := sm_cur s + 1, mpc := GoWorker i img\<rparr>) < rank s"
          using SmAcquire by (simp add: rank_def)
        ultimately show ?thesis by blast
      next
        case (GoWorker i img)
        let ?s' = "s\<lparr>workers := workers s @ [\<lparr>conf = mk_conf c j img i, wpc = Selecting\<rparr>],
                  mpc := ForRange (i + 1)\<rparr>"
        have "i < length (images s)" using GoWorker D(4) by simp
        then have "rank ?s' < rank s" using GoWorker by (simp add: rank_def)
        moreover have "next_state c j s M_Go = Some ?s'"
          using GoWorker D(3) by (simp add: next_state_def)
        ultimately show ?thesis by blast
      next
        case WgWait
        have "wg s = 0" using D(5) z WgWait by simp
        then have "next_state c j s M_WgWait = Some (s\<lparr>mpc := CloseResCh\<rparr>)"
          using WgWait D(3) by (simp add: next_state_def)
        moreover have "rank (s\<lparr>mpc := CloseResCh\<rparr>) < rank s" using WgWait by (simp add: rank_def)
        ultimately show ?thesis by blast
      next
        case CloseResCh
        have "\<not> res_closed s" using D(9) CloseResCh by simp
        then have "next_state c j s M_Close = Some (s\<lparr>res_closed := True, mpc := ResWgWait\<rparr>)"
          using CloseResCh D(3) by (simp add: next_state_def)
        moreover have "rank (s\<lparr>res_closed := True, mpc := ResWgWait\<rparr>) < rank s"
          using CloseResCh by (simp add: rank_def)
        ultimately show ?thesis by blast
      next
        case ResWgWait
        have cl: "res_closed s" using D(9) ResWgWait by simp
        show ?thesis
        proof (cases "agg s = AggExited")
          case True
          then have "res_wg s = 0" using D(10) by simp
          then have "next_state c j s M_ResWait = Some (s\<lparr>mpc := JobDone\<rparr>)"
            using ResWgWait D(3) by (simp add: next_state_def)
          moreover have "rank (s\<lparr>mpc := JobDone\<rparr>) < rank s" using ResWgWait by (simp add: rank_def)
          ultimately show ?thesis by blast
        next
          case False
          then have g: "agg s = Ranging" using noproc by (cases "agg s") auto
          then have "next_state c j s A_Exit = Some (s\<lparr>res_wg := res_wg s - 1, agg := AggExited\<rparr>)"
            using cl D(3) by (simp add: next_state_def)
          moreover have "rank (s\<lparr>res_wg := res_wg s - 1, agg := AggExited\<rparr>) < rank s"
            using g by (simp add: rank_def)
          ultimately show ?thesis by blast
        qed
      next
        case JobDone
        then have "next_state c j s M_JobDone =
            Some (s\<lparr>done_calls := done_calls s + 1, mpc := Returned\<rparr>)"
          using D(3) by (simp add: next_state_def)
        moreover have "rank (s\<lparr>done_calls := done_calls s + 1, mpc := Returned\<rparr>) < rank s"
          using JobDone by (simp add: rank_def)
        ultimately show ?thesis by blast
      next
        case Returned
        then show ?thesis using R by simp
      qed
    qed
  qed
qed

lemma can_complete:
  assumes P: "Images j = [] \<or> 1 \<le> GlobalInt c ''parallelism''"
  shows "invariant c j s \<Longrightarrow> \<exists>bs t. exec c j s bs = Some t \<and> mpc t = Returned"
proof (induction "rank s" arbitrary: s rule: less_induct)
  case less
  show ?case
  proof (cases "mpc s = Returned")
    case True
    then have "exec c j s [] = Some s \<and> mpc s = Returned" by simp
    then show ?thesis by blast
  next
    case False
    from progress [OF less.prems P False] obtain a s'
      where N: "next_state c j s a = Some s'" and r: "rank s' < rank s" by blast
    have "invariant c j s'" using invariant_step [OF less.prems N] .
    from less.hyps [OF r this] obtain bs t where "exec c j s' bs = Some t" "mpc t = Returned"
      by blast
    then have "exec c j s (a # bs) = Some t \<and> mpc t = Returned" using N by simp
    then show ?thesis by blast
  qed
qed

lemma reach_can_complete:
  assumes "reach c j as s" and "Images j = [] \<or> 1 \<le> GlobalInt c ''parallelism''"
  shows "\<exists>bs t. reach c j (as @ bs) t \<and> mpc t = Returned \<and> done_calls t = 1"
proof -
  from can_complete [OF assms(2) reach_invariant [OF assms(1)]]
  obtain bs t where e: "exec c j s bs = Some t" and r: "mpc t = Returned" by blast
  have rt: "reach c j (as @ bs) t" using assms(1) e by (simp add: reach_def exec_append)
  have "done_calls t = 1" using invD(13) [OF reach_invariant [OF rt]] r by simp
  then show ?thesis using rt r by blast
qed

lemma never_admitted:
  assumes "Images j \<noteq> []" and "GlobalInt c ''parallelism'' \<le> 0"
  shows "reach c j as s \<Longrightarrow>
    (mpc s = ForRange 0 \<or> (\<exists>img. mpc s = SmAcquire 0 img)) \<and> workers s = []
    \<and> agg s = Ranging \<and> sm_cur s = 0"
proof (induction as arbitrary: s rule: rev_induct)
  case Nil
  then show ?case by (auto simp: reach_def start_def)
next
  case (snoc a as)
  from snoc.prems obtain t where t: "reach c j as t" and N: "next_state c j t a = Some s"
    by (auto simp: reach_snoc)
  note IH = snoc.IH [OF t]
  note I = reach_invariant [OF t]
  note D = invD [OF I]
  from I N show ?case
  proof (cases rule: step_cases)
    case (Range_out i)
    then show ?thesis using IH D(1) assms(1) by auto
  next
    case (Acquire i img)
    then show ?thesis using IH D(2) assms(2) by auto
  next
    case Exit
    then show ?thesis using IH D(9) by auto
  qed (use IH in \<open>auto simp: at_pc_def\<close>)
qed

subsection \<open>Concrete runs\<close>

lemma example_reach: "reach (example_ctx 1 1 []) example_job example_run example_final"
  by code_simp

lemma example_mid_reach:
  "reach (example_ctx 1 1 []) example_job [M_Range, M_Acquire, M_Go] example_mid"
  by code_simp


lemma example_blocked_reach:
  "reach (example_ctx (- 1) 1 []) example_job [M_Range] example_blocked"
  by code_simp

lemma example_stuck_reach:
  "reach (example_ctx 0 1 []) example_job [M_Range] example_stuck"
  by code_simp

section \<open>The claims\<close>

text \<open>
  Claim C1, as amended. The claim bounds the workers that hold a token by the
  parallelism \<open>P\<close> for every \<open>P\<close>; a negative \<open>P\<close> passes validation, the semaphore
  then admits nobody, and the count \<open>0\<close> is above \<open>P\<close>. What holds for every setting and
  every list of images, at every point that any schedule reaches: the workers holding a
  token are at most \<open>max 0 P\<close>; the tokens acquired and not yet released are these
  workers' plus the one in the dispatch loop's hand, again at most \<open>max 0 P\<close>; no worker
  is started without an acquire before it; the acquire blocks while \<open>P\<close> tokens are out;
  and the \<open>go\<close> statement is reached only with the token acquired.
\<close>

theorem admission_bound:
  assumes "reach c j as s"
  shows "int (holders s) \<le> max 0 (GlobalInt c ''parallelism'')
    \<and> tokens_out as = int (holders s) + token_in_hand (mpc s)
    \<and> tokens_out as \<le> max 0 (GlobalInt c ''parallelism'')
    \<and> count_list as M_Go \<le> count_list as M_Acquire
    \<and> (GlobalInt c ''parallelism'' \<le> tokens_out as \<longrightarrow> next_state c j s M_Acquire = None)
    \<and> (next_state c j s M_Go \<noteq> None \<longrightarrow> token_in_hand (mpc s) = 1)"
proof -
  note D = invD [OF reach_invariant [OF assms]]
  have t: "tokens_out as = sm_cur s" using tokens_out_sm_cur [OF assms] .
  have h: "0 \<le> token_in_hand (mpc s)" by (cases "mpc s") simp_all
  have a: "int (holders s) \<le> max 0 (GlobalInt c ''parallelism'')"
    using D(2,6,7) h by (simp add: holders_def)
  have b: "tokens_out as = int (holders s) + token_in_hand (mpc s)"
    using t D(6) by (simp add: holders_def)
  have c: "tokens_out as \<le> max 0 (GlobalInt c ''parallelism'')" using t D(2,7) by simp
  have d: "count_list as M_Go \<le> count_list as M_Acquire"
    using dispatch_counts [OF assms] h by linarith
  have e: "next_state c j s M_Acquire = None" if "GlobalInt c ''parallelism'' \<le> tokens_out as"
    using that t D(2) by (simp add: next_state_def split: main_pc.splits)
  have f: "token_in_hand (mpc s) = 1" if "next_state c j s M_Go \<noteq> None"
    using that by (cases "mpc s") (auto simp: next_state_def split: if_splits)
  show ?thesis using a b c d e f by blast
qed

theorem admission_bound_witness:
  "reach (example_ctx 1 1 []) example_job [M_Range, M_Acquire, M_Go, M_Range]
     (example_mid\<lparr>wg := 2, mpc := SmAcquire 1 ''alpine''\<rparr>)
   \<and> int (holders (example_mid\<lparr>wg := 2, mpc := SmAcquire 1 ''alpine''\<rparr>))
       \<le> max 0 (GlobalInt (example_ctx 1 1 []) ''parallelism'')
   \<and> GlobalInt (example_ctx 1 1 []) ''parallelism''
       \<le> tokens_out [M_Range, M_Acquire, M_Go, M_Range]
   \<and> next_state (example_ctx 1 1 []) example_job
         (example_mid\<lparr>wg := 2, mpc := SmAcquire 1 ''alpine''\<rparr>) M_Acquire = None
   \<and> reach (example_ctx 1 1 []) example_job [M_Range, M_Acquire]
         (example_blocked\<lparr>sm_size := 1, sm_cur := 1, mpc := GoWorker 0 ''alpine''\<rparr>)
   \<and> next_state (example_ctx 1 1 []) example_job
         (example_blocked\<lparr>sm_size := 1, sm_cur := 1, mpc := GoWorker 0 ''alpine''\<rparr>) M_Go \<noteq> None
   \<and> token_in_hand (mpc (example_blocked\<lparr>sm_size := 1, sm_cur := 1,
         mpc := GoWorker 0 ''alpine''\<rparr>)) = 1"
proof -
  have r1: "reach (example_ctx 1 1 []) example_job [M_Range, M_Acquire, M_Go, M_Range]
      (example_mid\<lparr>wg := 2, mpc := SmAcquire 1 ''alpine''\<rparr>)"
    by code_simp
  have r2: "reach (example_ctx 1 1 []) example_job [M_Range, M_Acquire]
      (example_blocked\<lparr>sm_size := 1, sm_cur := 1, mpc := GoWorker 0 ''alpine''\<rparr>)"
    by code_simp
  have t: "GlobalInt (example_ctx 1 1 []) ''parallelism''
      \<le> tokens_out [M_Range, M_Acquire, M_Go, M_Range]"
    by code_simp
  have g: "next_state (example_ctx 1 1 []) example_job
      (example_blocked\<lparr>sm_size := 1, sm_cur := 1, mpc := GoWorker 0 ''alpine''\<rparr>) M_Go \<noteq> None"
    by code_simp
  show ?thesis using admission_bound [OF r1] admission_bound [OF r2] r1 r2 t g by simp
qed

text \<open>
  Claim C1 as stated fails for the parallelism \<open>-1\<close>: dispatch is at its first acquire,
  which blocks, no worker holds a token, and \<open>0\<close> is not at most \<open>-1\<close>.
\<close>

theorem admission_bound_counterexample:
  "verr (validateParameters 4 (example_ctx (- 1) 1 [])) = None
   \<and> reach (example_ctx (- 1) 1 []) example_job [M_Range] example_blocked
   \<and> next_state (example_ctx (- 1) 1 []) example_job example_blocked M_Acquire = None
   \<and> \<not> int (holders example_blocked) \<le> GlobalInt (example_ctx (- 1) 1 []) ''parallelism''"
  using example_blocked_reach by code_simp

text \<open>
  Claim C2, as amended. The claim has \<open>job.Done()\<close> invoked exactly once per
  invocation; with a parallelism below one and an image the dispatch loop waits for ever
  in its first acquire and \<open>job.Done()\<close> is never invoked. What holds on every
  schedule: \<open>job.Done()\<close> is called at most once, and it has been called once exactly
  when \<open>runApp\<close> has returned. When it has been called, it is the last step of the
  schedule, and the steps of joining and shutdown are, in this order: the return of
  every dispatched worker (each once, one per image), the end of \<open>wg.Wait()\<close>,
  \<open>close(resCh)\<close>, the aggregator's exit, the end of \<open>resWg.Wait()\<close>, \<open>job.Done()\<close>,
  each of the last five once; and the lines that \<open>job.Process\<close> has received are the
  lines the workers sent, in the order sent. With a parallelism of at least one, or no
  image, every reachable state has a continuation in which \<open>runApp\<close> returns with
  \<open>job.Done()\<close> called once (the sequential schedule is one such run from the start);
  with a parallelism below one and an image no worker is ever started and \<open>job.Done()\<close>
  is never called.
\<close>

theorem done_once_after_shutdown:
  assumes "reach c j as s"
  shows "count_list as M_JobDone = done_calls s \<and> done_calls s \<le> 1
    \<and> (mpc s = Returned \<longleftrightarrow> done_calls s = 1)
    \<and> (M_JobDone \<in> set as \<longrightarrow>
         last as = M_JobDone
         \<and> milestones as =
             map W_WgDone (returned as) @ [M_WgWait, M_Close, A_Exit, M_ResWait, M_JobDone]
         \<and> distinct (returned as) \<and> set (returned as) = {..<length (Images j)}
         \<and> length (workers s) = length (Images j)
         \<and> processed s = sent as)
    \<and> (Images j = [] \<or> 1 \<le> GlobalInt c ''parallelism'' \<longrightarrow>
         (\<exists>t. reach c j (serial (length (Images j))) t \<and> mpc t = Returned
              \<and> done_calls t = 1))
    \<and> (Images j = [] \<or> 1 \<le> GlobalInt c ''parallelism'' \<longrightarrow>
         (\<exists>bs t. reach c j (as @ bs) t \<and> mpc t = Returned \<and> done_calls t = 1))
    \<and> (Images j \<noteq> [] \<and> GlobalInt c ''parallelism'' \<le> 0 \<longrightarrow>
         done_calls s = 0 \<and> M_JobDone \<notin> set as \<and> workers s = [] \<and> mpc s \<noteq> Returned)"
proof -
  note I = reach_invariant [OF assms]
  note D = invD [OF I]
  have a: "count_list as M_JobDone = done_calls s" using done_count [OF assms] .
  have b: "done_calls s \<le> 1" and c: "mpc s = Returned \<longleftrightarrow> done_calls s = 1"
    using D(13) by simp_all
  have d: "last as = M_JobDone
         \<and> milestones as =
             map W_WgDone (returned as) @ [M_WgWait, M_Close, A_Exit, M_ResWait, M_JobDone]
         \<and> distinct (returned as) \<and> set (returned as) = {..<length (Images j)}
         \<and> length (workers s) = length (Images j)
         \<and> processed s = sent as" if m: "M_JobDone \<in> set as"
  proof -
    have "0 < count_list as M_JobDone" using m count_list_0_iff [of as M_JobDone] by auto
    then have r: "mpc s = Returned" using a D(13) by (simp split: if_splits)
    then have g: "agg s = AggExited" using D(12) by simp
    have 1: "milestones as =
        map W_WgDone (returned as) @ [M_WgWait, M_Close, A_Exit, M_ResWait, M_JobDone]"
      using milestones_shape [OF assms] r by simp
    have 2: "distinct (returned as)" "set (returned as) = {..<length (Images j)}"
      using returned_exited [OF assms] all_exited [OF I] r by simp_all
    have 3: "length (workers s) = length (Images j)" using D(1,4) r by simp
    have 4: "processed s = sent as" using sent_processed [OF assms] g by simp
    have 5: "last as = M_JobDone"
    proof (cases as rule: rev_cases)
      case Nil
      then show ?thesis using m by simp
    next
      case (snoc bs x)
      then obtain t where t: "reach c j bs t" and N: "next_state c j t x = Some s"
        using assms by (auto simp: reach_snoc)
      have "x = M_JobDone"
      proof (rule ccontr)
        assume "x \<noteq> M_JobDone"
        then have "M_JobDone \<in> set bs" using m snoc by auto
        then have "0 < count_list bs M_JobDone" using count_list_0_iff [of bs M_JobDone] by auto
        then have "mpc t = Returned"
          using done_count [OF t] invD(13) [OF reach_invariant [OF t]] by (simp split: if_splits)
        then show False using returned_terminal [OF reach_invariant [OF t]] N by simp
      qed
      then show ?thesis using snoc by simp
    qed
    show ?thesis using 1 2 3 4 5 by blast
  qed
  have e: "\<exists>bs t. reach c j (as @ bs) t \<and> mpc t = Returned \<and> done_calls t = 1"
    if "Images j = [] \<or> 1 \<le> GlobalInt c ''parallelism''"
    using reach_can_complete [OF assms that] .
  have f: "done_calls s = 0 \<and> M_JobDone \<notin> set as \<and> workers s = [] \<and> mpc s \<noteq> Returned"
    if "Images j \<noteq> [] \<and> GlobalInt c ''parallelism'' \<le> 0"
  proof -
    have n: "(mpc s = ForRange 0 \<or> (\<exists>img. mpc s = SmAcquire 0 img)) \<and> workers s = []"
      using never_admitted [of j c as s] that assms by simp
    then have r: "mpc s \<noteq> Returned" by auto
    then have z: "done_calls s = 0" using D(13) by simp
    then have "M_JobDone \<notin> set as" using a count_list_0_iff [of as M_JobDone] by simp
    then show ?thesis using n r z by simp
  qed
  show ?thesis using a b c d e f serial_completes [of j c] by blast
qed

theorem done_once_after_shutdown_witness:
  "reach (example_ctx 1 1 []) example_job example_run example_final
   \<and> M_JobDone \<in> set example_run
   \<and> count_list example_run M_JobDone = 1 \<and> done_calls example_final = 1
   \<and> last example_run = M_JobDone
   \<and> milestones example_run =
       map W_WgDone (returned example_run) @ [M_WgWait, M_Close, A_Exit, M_ResWait, M_JobDone]
   \<and> returned example_run = [0, 1]
   \<and> processed example_final = sent example_run
   \<and> 1 \<le> GlobalInt (example_ctx 1 1 []) ''parallelism''
   \<and> (\<exists>t. reach (example_ctx 1 1 []) example_job (serial (length (Images example_job))) t
          \<and> mpc t = Returned \<and> done_calls t = 1)
   \<and> reach (example_ctx 1 1 []) example_job [M_Range, M_Acquire, M_Go] example_mid
   \<and> (\<exists>bs t. reach (example_ctx 1 1 []) example_job ([M_Range, M_Acquire, M_Go] @ bs) t
          \<and> mpc t = Returned \<and> done_calls t = 1)
   \<and> Images example_job \<noteq> [] \<and> GlobalInt (example_ctx 0 1 []) ''parallelism'' \<le> 0
   \<and> reach (example_ctx 0 1 []) example_job [M_Range] example_stuck
   \<and> done_calls example_stuck = 0"
proof -
  have m: "M_JobDone \<in> set example_run" by code_simp
  have p: "1 \<le> GlobalInt (example_ctx 1 1 []) ''parallelism''" by code_simp
  have d: "done_calls example_final = 1" by code_simp
  have r: "returned example_run = [0, 1]" by code_simp
  have q: "Images example_job \<noteq> []" "GlobalInt (example_ctx 0 1 []) ''parallelism'' \<le> 0"
    by code_simp+
  show ?thesis
    using done_once_after_shutdown [OF example_reach] done_once_after_shutdown [OF example_mid_reach]
      done_once_after_shutdown [OF example_stuck_reach]
      example_reach example_mid_reach example_stuck_reach m p d r q
    by simp
qed

text \<open>
  Claim C2 as stated fails for the parallelism \<open>0\<close>, which validation accepts: after
  the first \<open>wg.Add(1)\<close> no worker exists, no step of the main goroutine or of the
  aggregator is enabled, and \<open>job.Done()\<close> has not been called.
\<close>

theorem done_once_counterexample:
  "verr (validateParameters 4 (example_ctx 0 1 [])) = None
   \<and> reach (example_ctx 0 1 []) example_job [M_Range] example_stuck
   \<and> done_calls example_stuck = 0 \<and> workers example_stuck = []
   \<and> next_state (example_ctx 0 1 []) example_job example_stuck M_Range = None
   \<and> next_state (example_ctx 0 1 []) example_job example_stuck M_Acquire = None
   \<and> next_state (example_ctx 0 1 []) example_job example_stuck M_Go = None
   \<and> next_state (example_ctx 0 1 []) example_job example_stuck M_WgWait = None
   \<and> next_state (example_ctx 0 1 []) example_job example_stuck M_Close = None
   \<and> next_state (example_ctx 0 1 []) example_job example_stuck M_ResWait = None
   \<and> next_state (example_ctx 0 1 []) example_job example_stuck M_JobDone = None
   \<and> next_state (example_ctx 0 1 []) example_job example_stuck A_Process = None
   \<and> next_state (example_ctx 0 1 []) example_job example_stuck A_Exit = None"
  using example_stuck_reach by code_simp

text \<open>
  Claim C3. On every schedule, whatever events the sessions deliver, worker \<open>i\<close> has
  called \<open>sm.Release(1)\<close> at most once, and exactly once when it is past its release
  (in particular when it has exited); the acquires are one per started worker plus the
  one in the dispatch loop's hand; a worker at its deferred release can always perform
  it; and no goroutine has panicked.
\<close>

theorem token_conservation:
  assumes "reach c j as s"
  shows "count_list as (W_Release i) \<le> 1
    \<and> (count_list as (W_Release i) = 1 \<longleftrightarrow> at_pc s i DeferWgDone \<or> at_pc s i Exited)
    \<and> int (count_list as M_Acquire) = int (length (workers s)) + token_in_hand (mpc s)
    \<and> (at_pc s i DeferRelease \<longrightarrow>
         next_state c j s (W_Release i) = Some (set_wpc i DeferWgDone (s\<lparr>sm_cur := sm_cur s - 1\<rparr>)))
    \<and> panicked s = None"
proof -
  note I = reach_invariant [OF assms]
  note D = invD [OF I]
  have r: "count_list as (W_Release i) = released_at (pcs s) i" using release_count [OF assms] .
  have a: "count_list as (W_Release i) \<le> 1" using r by (simp add: released_at_def)
  have b: "count_list as (W_Release i) = 1 \<longleftrightarrow> at_pc s i DeferWgDone \<or> at_pc s i Exited"
  proof (cases "i < length (pcs s)")
    case True
    then show ?thesis using r by (cases "pcs s ! i") (simp_all add: released_at_def at_pc_pcs)
  next
    case False
    then show ?thesis using r by (simp add: released_at_def at_pc_pcs)
  qed
  have c: "int (count_list as M_Acquire) = int (length (workers s)) + token_in_hand (mpc s)"
    using dispatch_counts [OF assms] by simp
  have d: "next_state c j s (W_Release i) = Some (set_wpc i DeferWgDone (s\<lparr>sm_cur := sm_cur s - 1\<rparr>))"
    if at: "at_pc s i DeferRelease"
  proof -
    have "1 \<le> int (count_pc holds_token s)" using at_pc_count [OF at, of holds_token] by simp
    moreover have "0 \<le> token_in_hand (mpc s)" by (cases "mpc s") simp_all
    ultimately have "1 \<le> sm_cur s" using D(6) by simp
    then show ?thesis using at D(3) by (simp add: next_state_def)
  qed
  show ?thesis using a b c d D(3) by blast
qed

theorem token_conservation_witness:
  "reach (example_ctx 1 1 []) example_job example_run example_final
   \<and> W_Recv 0 (Error ''e1'') \<in> set example_run \<and> W_Recv 0 (Error ''e2'') \<in> set example_run
   \<and> at_pc example_final 0 Exited \<and> count_list example_run (W_Release 0) = 1
   \<and> at_pc example_mid 0 Selecting
   \<and> count_list [M_Range, M_Acquire, M_Go] (W_Release 0) = 0"
proof -
  have e: "W_Recv 0 (Error ''e1'') \<in> set example_run" "W_Recv 0 (Error ''e2'') \<in> set example_run"
    by code_simp+
  have a: "at_pc example_final 0 Exited" "at_pc example_mid 0 Selecting" by code_simp+
  show ?thesis
    using token_conservation [OF example_reach, of 0] token_conservation [OF example_mid_reach, of 0]
      example_reach e a
    by simp
qed



text \<open>
  Claim C5, as amended. The worker logs an \<open>Info\<close> event at debug severity and a
  \<open>Debug\<close> event at trace severity, one level below the event's own; neither is
  forwarded to the aggregator and neither ends the loop.
\<close>

theorem info_debug_events:
  "worker_select cf (Info l) =
     \<lparr>logged = \<lparr>severity = DebugLevel, vm_field = BoxName cf, message = l\<rparr>,
      forward = None, returns = False\<rparr>
   \<and> worker_select cf (Debug l) =
     \<lparr>logged = \<lparr>severity = TraceLevel, vm_field = BoxName cf, message = l\<rparr>,
      forward = None, returns = False\<rparr>
   \<and> after_select (worker_select cf (Info l)) = Selecting
   \<and> after_select (worker_select cf (Debug l)) = Selecting"
  by (simp add: after_select_def)

text \<open>
  Claim C5 as stated fails: the line of an \<open>Info\<close> event is not logged at info
  severity, nor that of a \<open>Debug\<close> event at debug severity.
\<close>

theorem info_debug_events_counterexample:
  "severity (logged (worker_select (mk_conf (example_ctx 1 1 []) example_job ''alpine'' 0)
      (Info ''booting''))) \<noteq> InfoLevel
   \<and> severity (logged (worker_select (mk_conf (example_ctx 1 1 []) example_job ''alpine'' 0)
      (Debug ''ssh ready''))) \<noteq> DebugLevel"
  by simp

text \<open>
  Claim C6, as amended. The claim has the warning printed when the product of
  parallelism and per-VM CPU count exceeds the host's CPU count; the code compares the
  product as Go computes it, in 64-bit wrap-around arithmetic. What holds:
  \<open>validateParameters\<close> returns an error exactly when the per-VM CPU count or the
  parallelism exceeds the host's CPU count; it prints the warning exactly when it
  returns no error and \<open>(parallelism * cpus + 2^63) mod 2^64 - 2^63\<close> exceeds the host's
  CPU count; whenever the product lies in the 64-bit range, as it does for counts that
  are not negative on a host of fewer than \<open>2^31\<close> CPUs, this is the product itself;
  and \<open>runApp\<close> returns a validation error before the log is set up, a job is
  constructed or a VM is started.
\<close>

theorem validateParameters_outcomes:
  "(verr (validateParameters n c) \<noteq> None \<longleftrightarrow>
      n < GlobalInt c ''cpus'' \<or> n < GlobalInt c ''parallelism'')
   \<and> (warned (validateParameters n c) \<longleftrightarrow>
        verr (validateParameters n c) = None
        \<and> n < go_mul (GlobalInt c ''parallelism'') (GlobalInt c ''cpus''))
   \<and> (warned (validateParameters n c) \<longleftrightarrow>
        verr (validateParameters n c) = None
        \<and> n < (GlobalInt c ''parallelism'' * GlobalInt c ''cpus'' + 2 ^ 63) mod 2 ^ 64 - 2 ^ 63)
   \<and> (- (2 ^ 63) \<le> GlobalInt c ''parallelism'' * GlobalInt c ''cpus''
        \<and> GlobalInt c ''parallelism'' * GlobalInt c ''cpus'' < 2 ^ 63 \<longrightarrow>
        (warned (validateParameters n c) \<longleftrightarrow>
           verr (validateParameters n c) = None
           \<and> n < GlobalInt c ''parallelism'' * GlobalInt c ''cpus''))
   \<and> (0 \<le> GlobalInt c ''cpus'' \<and> 0 \<le> GlobalInt c ''parallelism'' \<and> n < 2 ^ 31
        \<and> verr (validateParameters n c) = None \<longrightarrow>
        go_mul (GlobalInt c ''parallelism'') (GlobalInt c ''cpus'') =
          GlobalInt c ''parallelism'' * GlobalInt c ''cpus'')
   \<and> (\<forall>e. verr (validateParameters n c) = Some e \<longrightarrow> runApp n fs nj c = ReturnError e)"
proof -
  have 1: "verr (validateParameters n c) \<noteq> None \<longleftrightarrow>
      n < GlobalInt c ''cpus'' \<or> n < GlobalInt c ''parallelism''"
    by (simp add: validateParameters_def)
  have 2: "warned (validateParameters n c) \<longleftrightarrow>
        verr (validateParameters n c) = None
        \<and> n < go_mul (GlobalInt c ''parallelism'') (GlobalInt c ''cpus'')"
    by (simp add: validateParameters_def)
  have w1: "warned (validateParameters n c) \<longleftrightarrow>
        verr (validateParameters n c) = None
        \<and> n < (GlobalInt c ''parallelism'' * GlobalInt c ''cpus'' + 2 ^ 63) mod 2 ^ 64 - 2 ^ 63"
    using 2 by (simp add: go_mul_def wrap64_def)
  have w2: "warned (validateParameters n c) \<longleftrightarrow>
           verr (validateParameters n c) = None
           \<and> n < GlobalInt c ''parallelism'' * GlobalInt c ''cpus''"
    if "- (2 ^ 63) \<le> GlobalInt c ''parallelism'' * GlobalInt c ''cpus''
        \<and> GlobalInt c ''parallelism'' * GlobalInt c ''cpus'' < 2 ^ 63"
  proof -
    have "go_int (GlobalInt c ''parallelism'' * GlobalInt c ''cpus'')"
      using that by (simp add: go_int_def)
    then show ?thesis using 2 wrap64_id by (simp add: go_mul_def)
  qed
  have 3: "go_mul (GlobalInt c ''parallelism'') (GlobalInt c ''cpus'') =
          GlobalInt c ''parallelism'' * GlobalInt c ''cpus''"
    if "0 \<le> GlobalInt c ''cpus''" "0 \<le> GlobalInt c ''parallelism''" "n < 2 ^ 31"
      "verr (validateParameters n c) = None"
  proof -
    have "GlobalInt c ''cpus'' \<le> n" "GlobalInt c ''parallelism'' \<le> n"
      using 1 that(4) by auto
    then show ?thesis using that go_mul_small by simp
  qed
  have 4: "runApp n fs nj c = ReturnError e" if "verr (validateParameters n c) = Some e" for e
    using that by (simp add: runApp_def)
  show ?thesis using 1 2 w1 w2 3 4 by blast
qed

theorem validateParameters_outcomes_witness:
  "verr (validateParameters 4 (example_ctx 2 3 [])) = None
   \<and> warned (validateParameters 4 (example_ctx 2 3 []))
   \<and> go_mul (GlobalInt (example_ctx 2 3 []) ''parallelism'') (GlobalInt (example_ctx 2 3 []) ''cpus'') = 6
   \<and> verr (validateParameters 4 (example_ctx 2 5 [])) = Some CPUsExceedAvailable
   \<and> runApp 4 (\<lambda>p. None) (\<lambda>c. Inr example_job) (example_ctx 2 5 []) = ReturnError CPUsExceedAvailable
   \<and> verr (validateParameters 4 (example_ctx 5 1 [])) = Some ParallelismExceedsAvailable
   \<and> \<not> warned (validateParameters 4 (example_ctx 2 2 []))
   \<and> GlobalInt (example_ctx (- 2) (- 3) []) ''parallelism''
       * GlobalInt (example_ctx (- 2) (- 3) []) ''cpus'' = 6
   \<and> verr (validateParameters 4 (example_ctx (- 2) (- 3) [])) = None
   \<and> warned (validateParameters 4 (example_ctx (- 2) (- 3) []))"
proof -
  have a: "verr (validateParameters 4 (example_ctx 2 3 [])) = None"
    "verr (validateParameters 4 (example_ctx 2 5 [])) = Some CPUsExceedAvailable"
    "verr (validateParameters 4 (example_ctx 5 1 [])) = Some ParallelismExceedsAvailable"
    "GlobalInt (example_ctx 2 3 []) ''parallelism'' = 2" "GlobalInt (example_ctx 2 3 []) ''cpus'' = 3"
    "\<not> warned (validateParameters 4 (example_ctx 2 2 []))"
    "GlobalInt (example_ctx (- 2) (- 3) []) ''parallelism'' = - 2"
    "GlobalInt (example_ctx (- 2) (- 3) []) ''cpus'' = - 3"
    "verr (validateParameters 4 (example_ctx (- 2) (- 3) [])) = None"
    "go_mul 2 3 = 6" "4 < go_mul (- 2) (- 3)" "4 < go_mul 2 3"
    by code_simp+
  show ?thesis
    using validateParameters_outcomes [of 4 "example_ctx 2 3 []" "\<lambda>p. None" "\<lambda>c. Inr example_job"]
      validateParameters_outcomes [of 4 "example_ctx 2 5 []" "\<lambda>p. None" "\<lambda>c. Inr example_job"]
      validateParameters_outcomes [of 4 "example_ctx (- 2) (- 3) []" "\<lambda>p. None" "\<lambda>c. Inr example_job"]
      a
    by simp
qed

text \<open>
  Claim C6 as stated fails in both directions at flags that validation accepts: for
  parallelism \<open>-4\<close> and \<open>-2^62\<close> CPUs the product \<open>2^64\<close> exceeds four host CPUs and no
  warning is printed; for parallelism \<open>2\<close> and \<open>50 - 2^63\<close> CPUs the product is negative
  and the warning is printed.
\<close>

theorem validateParameters_counterexample:
  "verr (validateParameters 4 (example_ctx (- 4) (- (2 ^ 62)) [])) = None
   \<and> 4 < GlobalInt (example_ctx (- 4) (- (2 ^ 62)) []) ''parallelism''
         * GlobalInt (example_ctx (- 4) (- (2 ^ 62)) []) ''cpus''
   \<and> \<not> warned (validateParameters 4 (example_ctx (- 4) (- (2 ^ 62)) []))
   \<and> verr (validateParameters 4 (example_ctx 2 (50 - 2 ^ 63) [])) = None
   \<and> \<not> 4 < GlobalInt (example_ctx 2 (50 - 2 ^ 63) []) ''parallelism''
         * GlobalInt (example_ctx 2 (50 - 2 ^ 63) []) ''cpus''
   \<and> warned (validateParameters 4 (example_ctx 2 (50 - 2 ^ 63) []))"
  by code_simp

text \<open>
  Claim C7. The instance names built for two dispatch iterations with different
  indices differ, whatever the two image names are; in every reachable state worker
  \<open>i\<close> runs the configuration built from image \<open>i\<close> and index \<open>i\<close>, so the names of
  any two started workers differ.
\<close>

theorem instance_names_distinct:
  "(i \<noteq> k \<longrightarrow> Name (mk_conf c j a i) \<noteq> Name (mk_conf c j b k))
   \<and> Name (mk_conf c j a i) = ''/tmp/'' @ a @ ''-'' @ itoa i
   \<and> (reach c j as s \<and> i < length (workers s) \<and> k < length (workers s) \<and> i \<noteq> k \<longrightarrow>
        conf (workers s ! i) = mk_conf c j (Images j ! i) i
        \<and> Name (conf (workers s ! i)) \<noteq> Name (conf (workers s ! k)))"
proof -
  have 1: "Name (mk_conf c j a i) \<noteq> Name (mk_conf c j b k)" if "i \<noteq> k" for a b
    using that vm_name_inj [of a i b k] by (auto simp: mk_conf_def)
  have 2: "Name (mk_conf c j a i) = ''/tmp/'' @ a @ ''-'' @ itoa i"
    by (simp add: mk_conf_def vm_name_def)
  have 3: "conf (workers s ! i) = mk_conf c j (Images j ! i) i
        \<and> Name (conf (workers s ! i)) \<noteq> Name (conf (workers s ! k))"
    if "reach c j as s" "i < length (workers s)" "k < length (workers s)" "i \<noteq> k"
  proof -
    note D = invD [OF reach_invariant [OF that(1)]]
    show ?thesis using D(1) D(14) [OF that(2)] D(14) [OF that(3)] 1 [OF that(4)] by simp
  qed
  show ?thesis using 1 2 3 by blast
qed

theorem instance_names_distinct_witness:
  "reach (example_ctx 1 1 []) example_job example_run example_final
   \<and> Images example_job ! 0 = Images example_job ! 1
   \<and> Name (conf (workers example_final ! 0)) = ''/tmp/alpine-0''
   \<and> Name (conf (workers example_final ! 1)) = ''/tmp/alpine-1''
   \<and> Name (conf (workers example_final ! 0)) \<noteq> Name (conf (workers example_final ! 1))"
proof -
  have a: "Images example_job ! 0 = Images example_job ! 1"
    "Name (conf (workers example_final ! 0)) = ''/tmp/alpine-0''"
    "Name (conf (workers example_final ! 1)) = ''/tmp/alpine-1''"
    "0 < length (workers example_final)" "1 < length (workers example_final)"
    by code_simp+
  show ?thesis
    using instance_names_distinct [of 0 1 "example_ctx 1 1 []" example_job "''alpine''" "''alpine''"
        example_run example_final] example_reach a
    by simp
qed

text \<open>
  Claim C8. On a host with \<open>n \<ge> 1\<close> CPUs \<open>defaultParallelism\<close> is \<open>n div 2\<close>, and
  \<open>defaultNumCPUs\<close> panics with a division by zero exactly when \<open>n = 1\<close>; from two CPUs
  on it returns \<open>n div (n div 2)\<close>.
\<close>

theorem default_cpus_need_two:
  assumes "1 \<le> n" and "go_int n"
  shows "defaultParallelism n = Inr (n div 2)
    \<and> (defaultNumCPUs n = Inl IntegerDivideByZero \<longleftrightarrow> n = 1)
    \<and> (2 \<le> n \<longrightarrow> defaultNumCPUs n = Inr (n div (n div 2)))"
proof -
  have p: "defaultParallelism n = Inr (n div 2)"
    using assms by (simp add: defaultParallelism_def go_div_pos)
  have one: "n = 1 \<Longrightarrow> defaultNumCPUs n = Inl IntegerDivideByZero"
    using p by (simp add: defaultNumCPUs_def go_div_def)
  have two: "defaultNumCPUs n = Inr (n div (n div 2))" if "2 \<le> n"
  proof -
    have "0 < n div 2" using that by simp
    then show ?thesis using p assms by (simp add: defaultNumCPUs_def go_div_pos)
  qed
  have "n = 1 \<or> 2 \<le> n" using assms by arith
  then show ?thesis using p one two by auto
qed

theorem default_cpus_need_two_witness:
  "(1::int) \<le> 1 \<and> go_int 1 \<and> defaultParallelism 1 = Inr 0
   \<and> defaultNumCPUs 1 = Inl IntegerDivideByZero
   \<and> (2::int) \<le> 8 \<and> go_int 8 \<and> defaultParallelism 8 = Inr 4 \<and> defaultNumCPUs 8 = Inr 2"
proof -
  have g: "go_int 1" "go_int 8" by (simp_all add: go_int_def)
  show ?thesis
    using default_cpus_need_two [of 1] default_cpus_need_two [of 8] g by simp
qed

text \<open>
  Claim C9. With the flags that \<open>main\<close> declares, a non-empty \<open>log.output\<close> makes
  \<open>initLog\<close> open the path read from the undeclared name \<open>log-output\<close>, the empty
  string; the open fails, \<open>initLog\<close> returns that error, and \<open>runApp\<close> returns an
  error without constructing a job. Whenever \<open>initLog\<close> succeeds, the log output is the
  standard output: it is never a file.
\<close>

theorem initLog_wrong_key:
  assumes "declared c"
  shows "GlobalString c ''log-output'' = []
    \<and> (GlobalString c ''log.output'' \<noteq> [] \<longrightarrow>
         initLog fs c = Inl (PathError ''open'' [])
         \<and> runApp n fs nj c =
             ReturnError (case verr (validateParameters n c) of
                            Some e \<Rightarrow> e | None \<Rightarrow> PathError ''open'' []))
    \<and> (\<forall>lg. initLog fs c = Inr lg \<longrightarrow> log_output lg = Stdout)"
proof -
  have "''log-output'' \<notin> set string_flags" by (simp add: string_flags_def)
  then have "''log-output'' \<notin> dom (gstrings c)" using assms by (simp add: declared_def)
  then have k: "GlobalString c ''log-output'' = []" by (auto simp: GlobalString_def domIff)
  have o: "initLog fs c = Inl (PathError ''open'' [])" if "GlobalString c ''log.output'' \<noteq> []"
    using that k by (simp add: initLog_def OpenFile_def Let_def)
  have r: "runApp n fs nj c =
             ReturnError (case verr (validateParameters n c) of
                            Some e \<Rightarrow> e | None \<Rightarrow> PathError ''open'' [])"
    if "GlobalString c ''log.output'' \<noteq> []"
    using o [OF that] by (simp add: runApp_def split: option.splits)
  have s: "log_output lg = Stdout" if "initLog fs c = Inr lg" for lg
  proof (cases "GlobalString c ''log.output'' = []")
    case True
    then show ?thesis using that by (auto simp: initLog_def Let_def)
  next
    case False
    then show ?thesis using that o by simp
  qed
  show ?thesis using k o r s by blast
qed

theorem initLog_wrong_key_witness:
  "declared (example_ctx 1 1 ''vm.log'')
   \<and> GlobalString (example_ctx 1 1 ''vm.log'') ''log.output'' = ''vm.log''
   \<and> initLog (\<lambda>p. None) (example_ctx 1 1 ''vm.log'') = Inl (PathError ''open'' [])
   \<and> runApp 4 (\<lambda>p. None) (\<lambda>c. Inr example_job) (example_ctx 1 1 ''vm.log'') =
       ReturnError (PathError ''open'' [])
   \<and> declared (example_ctx 1 1 [])
   \<and> initLog (\<lambda>p. None) (example_ctx 1 1 []) =
       Inr \<lparr>json_format = False, log_output = Stdout, level = DebugLevel\<rparr>"
proof -
  have d: "declared (example_ctx 1 1 l)" for l
    by (auto simp: declared_def example_ctx_def string_flags_def int_flags_def bool_flags_def)
  have a: "GlobalString (example_ctx 1 1 ''vm.log'') ''log.output'' = ''vm.log''"
    "verr (validateParameters 4 (example_ctx 1 1 ''vm.log'')) = None"
    "initLog (\<lambda>p. None) (example_ctx 1 1 []) =
       Inr \<lparr>json_format = False, log_output = Stdout, level = DebugLevel\<rparr>"
    by code_simp+
  show ?thesis
    using initLog_wrong_key [OF d [of "''vm.log''"], of "\<lambda>p. None" 4 "\<lambda>c. Inr example_job"]
      initLog_wrong_key [OF d [of "[]"], of "\<lambda>p. None" 4 "\<lambda>c. Inr example_job"] d a
    by simp
qed

text \<open>
  Claim C10. The identifier in a forwarded \<open>VMOutput\<close> and in each of a worker's log
  lines is the image name of the configuration. Two instances of one image therefore
  log and forward the same records for the same events, although their instance names
  differ.
\<close>

theorem vm_identifier_is_image:
  "forward (worker_select cf (CmdOutput l)) = Some \<lparr>VM = BoxName cf, Line = l\<rparr>
   \<and> (\<forall>out. forward (worker_select cf ev) = Some out \<longrightarrow> VM out = BoxName cf)
   \<and> vm_field (logged (worker_select cf ev)) = BoxName cf
   \<and> BoxName (mk_conf c j img i) = img
   \<and> worker_select (mk_conf c j img i) ev = worker_select (mk_conf c j img k) ev
   \<and> (i \<noteq> k \<longrightarrow> Name (mk_conf c j img i) \<noteq> Name (mk_conf c j img k))"
proof -
  have 1: "\<forall>out. forward (worker_select cf ev) = Some out \<longrightarrow> VM out = BoxName cf"
    by (cases ev) auto
  have 2: "vm_field (logged (worker_select cf ev)) = BoxName cf" by (cases ev) simp_all
  have 3: "worker_select (mk_conf c j img i) ev = worker_select (mk_conf c j img k) ev"
    by (cases ev) (simp_all add: mk_conf_def)
  have 4: "Name (mk_conf c j img i) \<noteq> Name (mk_conf c j img k)" if "i \<noteq> k"
    using that vm_name_inj [of img i img k] by (auto simp: mk_conf_def)
  show ?thesis using 1 2 3 4 by (simp add: mk_conf_def)
qed

theorem vm_identifier_is_image_witness:
  "(0::nat) \<noteq> 1
   \<and> Name (mk_conf (example_ctx 1 1 []) example_job ''alpine'' 0)
       \<noteq> Name (mk_conf (example_ctx 1 1 []) example_job ''alpine'' 1)
   \<and> forward (worker_select (mk_conf (example_ctx 1 1 []) example_job ''alpine'' 0) (CmdOutput ''5.10''))
       = Some \<lparr>VM = ''alpine'', Line = ''5.10''\<rparr>
   \<and> forward (worker_select (mk_conf (example_ctx 1 1 []) example_job ''alpine'' 1) (CmdOutput ''5.10''))
       = Some \<lparr>VM = ''alpine'', Line = ''5.10''\<rparr>"
  using vm_identifier_is_image [of "mk_conf (example_ctx 1 1 []) example_job ''alpine'' 0" "''5.10''"
      "CmdOutput ''5.10''" "example_ctx 1 1 []" example_job "''alpine''" 0 1]
  by (simp add: mk_conf_def)

end
